theory Spec2Isabelle
  imports Main "HOL-Library.Multiset"
begin

section \<open>Strings and the title pattern\<close>

text \<open>
  Go strings are byte sequences; \<^typ>\<open>string\<close> is a list of 8-bit characters.
  The feed loader compiles the pattern \<^verbatim>\<open>^Episode\s+(\d+):\s*(.+)$\<close> with Go's
  \<^verbatim>\<open>regexp\<close> package (RE2 syntax, no flags): \<^verbatim>\<open>\s\<close> is the class
  \<^verbatim>\<open>[\t\n\f\r ]\<close>, \<^verbatim>\<open>\d\<close> is \<^verbatim>\<open>[0-9]\<close>, \<^verbatim>\<open>.\<close> is any character but
  newline, \<^verbatim>\<open>^\<close> and \<^verbatim>\<open>$\<close> are the beginning and the end of the text.
\<close>

type_synonym bytes = "char list"

definition newline :: char where
  "newline = CHR 0x0A"

definition isSpace :: "char \<Rightarrow> bool" where
  "isSpace c = (c = CHR 0x09 \<or> c = CHR 0x0A \<or> c = CHR 0x0C \<or> c = CHR 0x0D \<or> c = CHR '' '')"

definition isDigit :: "char \<Rightarrow> bool" where
  "isDigit c = (c \<in> set ''0123456789'')"

fun strip_prefix :: "string \<Rightarrow> string \<Rightarrow> string option" where
  "strip_prefix [] s = Some s"
| "strip_prefix (p # ps) [] = None"
| "strip_prefix (p # ps) (c # cs) = (if p = c then strip_prefix ps cs else None)"

text \<open>
  \<^verbatim>\<open>re.FindStringSubmatch(s)\<close> for the pattern above: nil (the empty list) when the
  text does not match, otherwise the whole match followed by the two groups.
  The pattern is anchored at both ends, so the whole match is the text itself.
  Repetitions are greedy and the classes \<^verbatim>\<open>\s\<close>, \<^verbatim>\<open>\d\<close> and \<^verbatim>\<open>:\<close> are
  disjoint, so \<^verbatim>\<open>\s+\<close> and \<^verbatim>\<open>\d+\<close> take their maximal runs. \<^verbatim>\<open>\s*\<close> takes
  the maximal run as well, unless nothing is left for \<^verbatim>\<open>.+\<close>: then it gives back
  one character, which becomes the second group. The second group reaches the end of
  the text and cannot hold a newline.
\<close>

definition FindStringSubmatch :: "string \<Rightarrow> string list" where
  "FindStringSubmatch s =
     (case strip_prefix ''Episode'' s of
        None \<Rightarrow> []
      | Some r1 \<Rightarrow>
          let ws = takeWhile isSpace r1; r2 = dropWhile isSpace r1 in
          if ws = [] then []
          else
            let ds = takeWhile isDigit r2; r3 = dropWhile isDigit r2 in
            if ds = [] then []
            else
              (case r3 of
                 [] \<Rightarrow> []
               | c # r4 \<Rightarrow>
                   if c \<noteq> CHR '':'' then []
                   else
                     let r5 = dropWhile isSpace r4 in
                     if r5 \<noteq> [] then (if newline \<in> set r5 then [] else [s, ds, r5])
                     else if r4 = [] \<or> last r4 = newline then []
                     else [s, ds, [last r4]]))"

text \<open>The language of the pattern, stated without reference to the matcher.\<close>

definition matches_pattern :: "string \<Rightarrow> bool" where
  "matches_pattern s =
     (\<exists>ws ds ws' t.
        s = ''Episode'' @ ws @ ds @ '':'' @ ws' @ t \<and>
        ws \<noteq> [] \<and> list_all isSpace ws \<and>
        ds \<noteq> [] \<and> list_all isDigit ds \<and>
        list_all isSpace ws' \<and>
        t \<noteq> [] \<and> newline \<notin> set t)"

text \<open>The decimal value of a run of digits, for comparing episode numbers.\<close>

definition digit_val :: "char \<Rightarrow> nat" where
  "digit_val c = of_char c - of_char CHR ''0''"

definition num_val :: "string \<Rightarrow> nat" where
  "num_val s = foldl (\<lambda>a c. 10 * a + digit_val c) 0 s"

section \<open>Feed items, episodes and the downloader\<close>

text \<open>The parts of \<^verbatim>\<open>gofeed.Item\<close> and \<^verbatim>\<open>gofeed.Enclosure\<close> that the loader reads.\<close>

record Enclosure =
  enc_URL :: string
  enc_Length :: string
  enc_Type :: string

record Item =
  item_Title :: string
  item_Enclosures :: "Enclosure list"

record Episode =
  Number :: string
  Title :: string
  URL :: string

text \<open>The second revision in \<^verbatim>\<open>main.go\<close> adds the size declared by the feed.\<close>

record Episode2 = Episode +
  ExpectedSize :: int

record 'e Downloader =
  OutputDir :: string
  FeedURL :: string
  CoverURL :: string
  Episodes :: "'e list"

definition newDownloader :: "string \<Rightarrow> string \<Rightarrow> string \<Rightarrow> 'e Downloader" where
  "newDownloader outDir feedURL coverURL =
     \<lparr>OutputDir = outDir, FeedURL = feedURL, CoverURL = coverURL, Episodes = []\<rparr>"

datatype error = Error string | Wrap string error

text \<open>
  One constructor for each \<^verbatim>\<open>log.Fatalf\<close>, \<^verbatim>\<open>log.Printf\<close> and \<^verbatim>\<open>log.Println\<close> of
  the program.
\<close>

datatype logline =
    FatalPreparingOutput error
  | FatalFetchingCover error
  | FatalLoadingEpisodes error
  | CoverDownloaded
  | UnrecognizedTitle string
  | FoundEpisodes nat
  | AlreadyDownloaded string
  | AlreadyComplete string
  | ErrReadingMetadata string error
  | MetadataIncomplete string
  | ErrUpdatingMetadata string error
  | MetadataUpdated string
  | Downloading string
  | ErrDownloading string error
  | ErrTagging string error
  | Processed string

subsection \<open>loadEpisodes\<close>

text \<open>
  The \<^verbatim>\<open>for _, item := range feed.Items\<close> loop: the episodes collected so far and
  the lines logged so far are threaded through.
\<close>

fun collect :: "Item list \<Rightarrow> Episode list \<Rightarrow> logline list \<Rightarrow> Episode list \<times> logline list" where
  "collect [] eps lg = (eps, lg)"
| "collect (item # items) eps lg =
     (if length (item_Enclosures item) = 0 then collect items eps lg
      else
        let matches = FindStringSubmatch (item_Title item) in
        if length matches \<noteq> 3 then
          collect items eps (lg @ [UnrecognizedTitle (item_Title item)])
        else
          let ep = \<lparr>Number = matches ! 1, Title = matches ! 2,
                    URL = enc_URL (item_Enclosures item ! 0)\<rparr>
          in collect items (eps @ [ep]) lg)"

text \<open>
  The in-place reversal
  \<^verbatim>\<open>for i, j := 0, len(d.Episodes)-1; i < j; i, j = i+1, j-1 { swap }\<close>.
  Both indices are Go \<^verbatim>\<open>int\<close>s; \<open>j\<close> starts at \<open>-1\<close> on the empty list.
\<close>

function reverse_loop :: "int \<Rightarrow> int \<Rightarrow> 'a list \<Rightarrow> 'a list" where
  "reverse_loop i j es =
     (if i < j then
        reverse_loop (i + 1) (j - 1) (es[nat i := es ! nat j, nat j := es ! nat i])
      else es)"
  by pat_completeness auto
termination
  by (relation "measure (\<lambda>(i, j, es). nat (j - i))") auto

declare reverse_loop.simps [simp del]

text \<open>
  \<^verbatim>\<open>loadEpisodes\<close>: the first argument is the result of \<^verbatim>\<open>parser.ParseURL(d.FeedURL)\<close>,
  an error or the items of the feed in feed order. The result is the returned error
  (None for nil), the downloader and the lines logged.
\<close>

definition loadEpisodes ::
    "error + Item list \<Rightarrow> Episode Downloader \<Rightarrow> error option \<times> Episode Downloader \<times> logline list" where
  "loadEpisodes feed d =
     (case feed of
        Inl err \<Rightarrow> (Some (Wrap ''failed to parse feed'' err), d, [])
      | Inr items \<Rightarrow>
          let (eps, lg) = collect items (Episodes d) [];
              eps' = reverse_loop 0 (int (length eps) - 1) eps
          in (None, d\<lparr>Episodes := eps'\<rparr>, lg @ [FoundEpisodes (length eps')]))"

text \<open>\<^verbatim>\<open>fmt.Sprintf("%s - %s.mp3", ep.Number, ep.Title)\<close>\<close>

definition fileName :: "'a Episode_scheme \<Rightarrow> string" where
  "fileName ep = Number ep @ '' - '' @ Title ep @ ''.mp3''"

subsection \<open>loadEpisodes, second revision of main.go\<close>

datatype NumError = ErrSyntax | ErrRange

text \<open>
  \<^verbatim>\<open>strconv.ParseInt(s, 10, 64)\<close>: an optional sign, then at least one decimal digit
  and nothing else; a value outside the 64-bit signed range is a range error.
\<close>

definition ParseInt :: "string \<Rightarrow> NumError + int" where
  "ParseInt s =
     (if s = [] then Inl ErrSyntax
      else
        let neg = (hd s = CHR ''-'');
            s0 = (if hd s = CHR ''+'' \<or> hd s = CHR ''-'' then tl s else s)
        in
          if s0 = [] \<or> \<not> list_all isDigit s0 then Inl ErrSyntax
          else
            let un = int (num_val s0) in
            if \<not> neg \<and> un \<ge> 2 ^ 63 then Inl ErrRange
            else if neg \<and> un > 2 ^ 63 then Inl ErrRange
            else Inr (if neg then - un else un))"

fun collect2 :: "Item list \<Rightarrow> Episode2 list \<Rightarrow> logline list \<Rightarrow> Episode2 list \<times> logline list" where
  "collect2 [] eps lg = (eps, lg)"
| "collect2 (item # items) eps lg =
     (if length (item_Enclosures item) = 0 then collect2 items eps lg
      else
        let matches = FindStringSubmatch (item_Title item) in
        if length matches \<noteq> 3 then
          collect2 items eps (lg @ [UnrecognizedTitle (item_Title item)])
        else
          let sizeStr = enc_Length (item_Enclosures item ! 0);
              expSize = (if sizeStr \<noteq> [] then
                           (case ParseInt sizeStr of Inr sz \<Rightarrow> sz | Inl err \<Rightarrow> 0)
                         else 0);
              ep = \<lparr>Number = matches ! 1, Title = matches ! 2,
                    URL = enc_URL (item_Enclosures item ! 0), ExpectedSize = expSize\<rparr>
          in collect2 items (eps @ [ep]) lg)"

definition loadEpisodes2 ::
    "error + Item list \<Rightarrow> Episode2 Downloader \<Rightarrow> error option \<times> Episode2 Downloader \<times> logline list" where
  "loadEpisodes2 feed d =
     (case feed of
        Inl err \<Rightarrow> (Some (Wrap ''failed to parse feed'' err), d, [])
      | Inr items \<Rightarrow>
          let (eps, lg) = collect2 items (Episodes d) [];
              eps' = reverse_loop 0 (int (length eps) - 1) eps
          in (None, d\<lparr>Episodes := eps'\<rparr>, lg @ [FoundEpisodes (length eps')]))"

subsection \<open>What the feed declares\<close>

text \<open>
  The episode numbers of the feed, in feed order: the first group of the title of every
  item that has an enclosure and whose title matches.
\<close>

definition feed_numbers :: "Item list \<Rightarrow> string list" where
  "feed_numbers items =
     map (\<lambda>item. FindStringSubmatch (item_Title item) ! 1)
       (filter (\<lambda>item. item_Enclosures item \<noteq> [] \<and> matches_pattern (item_Title item)) items)"

section \<open>Paths\<close>

text \<open>
  \<^verbatim>\<open>filepath.Join\<close> and \<^verbatim>\<open>filepath.Clean\<close> with \<^verbatim>\<open>/\<close> as the separator:
  empty and \<^verbatim>\<open>.\<close> elements are dropped, a \<^verbatim>\<open>..\<close> element removes the element before
  it (at the root it is dropped, at the start of a relative path it stays), and the
  empty result is \<^verbatim>\<open>.\<close>.
\<close>

fun split_on :: "char \<Rightarrow> string \<Rightarrow> string list" where
  "split_on c [] = [] # []"
| "split_on c (x # xs) =
     (if x = c then [] # split_on c xs
      else (case split_on c xs of
              [] \<Rightarrow> [x] # []
            | e # es \<Rightarrow> (x # e) # es))"

fun clean_elems :: "bool \<Rightarrow> string list \<Rightarrow> string list \<Rightarrow> string list" where
  "clean_elems rooted [] out = rev out"
| "clean_elems rooted (e # es) out =
     (if e = [] \<or> e = ''.'' then clean_elems rooted es out
      else if e = ''..'' then
        (case out of
           [] \<Rightarrow> if rooted then clean_elems rooted es [] else clean_elems rooted es [''..'']
         | last_elem # below \<Rightarrow>
             if last_elem = ''..'' then clean_elems rooted es (''..'' # out)
             else clean_elems rooted es below)
      else clean_elems rooted es (e # out))"

fun join_slash :: "string list \<Rightarrow> string" where
  "join_slash [] = []"
| "join_slash [e] = e"
| "join_slash (e # es) = e @ ''/'' @ join_slash es"

definition Clean :: "string \<Rightarrow> string" where
  "Clean path =
     (if path = [] then ''.''
      else
        let rooted = (hd path = CHR ''/'');
            out = (if rooted then ''/'' else []) @ join_slash (clean_elems rooted (split_on CHR ''/'' path) [])
        in if out = [] then ''.'' else out)"

definition Join :: "string \<Rightarrow> string \<Rightarrow> string" where
  "Join a b =
     (if a \<noteq> [] then Clean (a @ ''/'' @ b)
      else if b \<noteq> [] then Clean b
      else [])"

section \<open>ID3v2 tags\<close>

text \<open>
  The part of \<^verbatim>\<open>github.com/bogem/id3v2\<close> (v1.2.0 in \<^verbatim>\<open>go.mod\<close>) that the program
  calls. A tag holds single frames by frame id (here the text frames, \<^verbatim>\<open>TALB\<close> being
  the album) and sequences of frames that may occur several times (here the attached
  pictures, \<^verbatim>\<open>APIC\<close>, which the library never keeps among the single frames).
\<close>

datatype Encoding = EncodingISO | EncodingUTF16 | EncodingUTF16BE | EncodingUTF8

record PictureFrame =
  Encoding :: Encoding
  MimeType :: string
  PictureType :: nat
  Description :: string
  Picture :: bytes

definition PTFrontCover :: nat where
  "PTFrontCover = 3"

record Tag =
  text_frames :: "string \<rightharpoonup> string"
  pictures :: "PictureFrame list"

datatype Framer = TextFramer string | PictureFramer PictureFrame

text \<open>
  The library keeps the frames of a sequence apart by their unique identifier, which for
  a picture is its description (\<^verbatim>\<open>pf.Description\<close>; the picture type is not part of
  it in this version). Adding a frame to a sequence replaces the frame with the same
  identifier if there is one, and appends the frame otherwise.
\<close>

definition UniqueIdentifier :: "PictureFrame \<Rightarrow> string" where
  "UniqueIdentifier pf = Description pf"

fun sequence_AddFrame :: "PictureFrame \<Rightarrow> PictureFrame list \<Rightarrow> PictureFrame list" where
  "sequence_AddFrame f [] = [f]"
| "sequence_AddFrame f (g # gs) =
     (if UniqueIdentifier g = UniqueIdentifier f then f # gs
      else g # sequence_AddFrame f gs)"

definition emptyTag :: Tag where
  "emptyTag = \<lparr>text_frames = Map.empty, pictures = []\<rparr>"

definition Album :: "Tag \<Rightarrow> string" where
  "Album tag = (case text_frames tag ''TALB'' of None \<Rightarrow> [] | Some text \<Rightarrow> text)"

definition SetAlbum :: "Tag \<Rightarrow> string \<Rightarrow> Tag" where
  "SetAlbum tag album = tag\<lparr>text_frames := (text_frames tag)(''TALB'' \<mapsto> album)\<rparr>"

definition AddAttachedPicture :: "Tag \<Rightarrow> PictureFrame \<Rightarrow> Tag" where
  "AddAttachedPicture tag pf = tag\<lparr>pictures := sequence_AddFrame pf (pictures tag)\<rparr>"

definition GetFrames :: "Tag \<Rightarrow> string \<Rightarrow> Framer list" where
  "GetFrames tag frameID =
     (if frameID = ''APIC'' then map PictureFramer (pictures tag)
      else
        (case text_frames tag frameID of
           Some text \<Rightarrow> [TextFramer text]
         | None \<Rightarrow> []))"

section \<open>Files and the network\<close>

text \<open>
  A file is kept in parsed form: what stands at its head (no ID3v2 header, a container
  that the library refuses, or a tag with its frames in file order) and the bytes after
  it. \<open>raw\<close> gives the byte image of a file; it is a parameter of the world.
\<close>

datatype container = NoTag | BadTag error | HasTag Tag

record content =
  id3 :: container
  audio :: bytes

text \<open>
  What the server answers for a URL: the declared length, the body, and the error that
  ends the copy of the body early, if any (\<open>body\<close> is then what arrived before it).
\<close>

record response =
  ContentLength :: int
  body :: content
  copy_error :: "error option"

text \<open>
  The world the program runs in: the files by path; what the server answers for a URL
  (to \<^verbatim>\<open>http.Get\<close> and \<^verbatim>\<open>http.Head\<close>); what \<^verbatim>\<open>parser.ParseURL\<close> returns for a feed
  URL; the paths that cannot be created or replaced, with the error that \<^verbatim>\<open>os.MkdirAll\<close>,
  \<^verbatim>\<open>os.Create\<close> and \<^verbatim>\<open>tag.Save\<close> return there; the byte image of a file; and the
  trace of what the program has logged and called so far.
\<close>

datatype event =
    Log logline
  | DownloadFile string string
  | TagEpisode string string

record world =
  files :: "string \<rightharpoonup> content"
  remote :: "string \<Rightarrow> error + response"
  feeds :: "string \<Rightarrow> error + Item list"
  denied :: "string \<rightharpoonup> error"
  raw :: "content \<Rightarrow> bytes"
  trace :: "event list"

definition log :: "logline \<Rightarrow> world \<Rightarrow> world" where
  "log l w = w\<lparr>trace := trace w @ [Log l]\<rparr>"

text \<open>\<^verbatim>\<open>os.Stat(path)\<close>: an error, or the size of the file.\<close>

definition Stat :: "world \<Rightarrow> string \<Rightarrow> error + int" where
  "Stat w path =
     (case files w path of
        None \<Rightarrow> Inl (Error ''no such file or directory'')
      | Some f \<Rightarrow> Inr (int (length (raw w f))))"

definition ReadFile :: "world \<Rightarrow> string \<Rightarrow> error + bytes" where
  "ReadFile w path =
     (case files w path of
        None \<Rightarrow> Inl (Error ''no such file or directory'')
      | Some f \<Rightarrow> Inr (raw w f))"

text \<open>
  \<^verbatim>\<open>id3v2.Open(path, id3v2.Options{Parse: true})\<close>. The library reads the 10 bytes
  of the tag header first: an empty file, and a file of at least 10 bytes that does not
  start with an ID3v2 header, open with an empty tag; a file of 1 to 9 bytes is
  refused. The frames of a tag are added one by one in file order.
\<close>

definition tagHeaderSize :: nat where
  "tagHeaderSize = 10"

definition Open :: "world \<Rightarrow> string \<Rightarrow> error + Tag" where
  "Open w path =
     (case files w path of
        None \<Rightarrow> Inl (Error ''no such file or directory'')
      | Some f \<Rightarrow>
          (case id3 f of
             NoTag \<Rightarrow>
               if 0 < length (raw w f) \<and> length (raw w f) < tagHeaderSize then
                 Inl (Wrap ''error by parsing tag header''
                        (Error ''size of tag header is less than expected''))
               else Inr emptyTag
           | BadTag err \<Rightarrow> Inl err
           | HasTag t \<Rightarrow>
               Inr (t\<lparr>pictures := foldl (\<lambda>fs p. sequence_AddFrame p fs) [] (pictures t)\<rparr>)))"

text \<open>
  \<^verbatim>\<open>tag.Save()\<close> for a tag opened from \<open>path\<close>: the tag and the bytes after the old
  container are written to a new file, which replaces the old one. (The program saves
  tags that hold frames only.)
\<close>

definition Save :: "string \<Rightarrow> Tag \<Rightarrow> world \<Rightarrow> error option \<times> world" where
  "Save path tag w =
     (case files w path of
        None \<Rightarrow> (Some (Error ''no such file or directory''), w)
      | Some f \<Rightarrow>
          (case denied w path of
             Some err \<Rightarrow> (Some err, w)
           | None \<Rightarrow> (None, w\<lparr>files := (files w)(path \<mapsto> f\<lparr>id3 := HasTag tag\<rparr>)\<rparr>)))"

section \<open>The program\<close>

subsection \<open>downloadFile and tagEpisode (the same in the three revisions)\<close>

definition downloadFile :: "string \<Rightarrow> string \<Rightarrow> world \<Rightarrow> error option \<times> world" where
  "downloadFile url dest w0 =
     (let w = w0\<lparr>trace := trace w0 @ [DownloadFile url dest]\<rparr> in
      case remote w url of
        Inl err \<Rightarrow> (Some err, w)
      | Inr resp \<Rightarrow>
          (case denied w dest of
             Some err \<Rightarrow> (Some err, w)
           | None \<Rightarrow> (copy_error resp, w\<lparr>files := (files w)(dest \<mapsto> body resp)\<rparr>)))"

definition tagEpisode :: "string \<Rightarrow> string \<Rightarrow> world \<Rightarrow> error option \<times> world" where
  "tagEpisode mp3Path coverPath w0 =
     (let w = w0\<lparr>trace := trace w0 @ [TagEpisode mp3Path coverPath]\<rparr> in
      case Open w mp3Path of
        Inl err \<Rightarrow> (Some err, w)
      | Inr tag \<Rightarrow>
          let tag1 = SetAlbum tag ''Music For Programming'' in
          (case ReadFile w coverPath of
             Inl err \<Rightarrow> (Some err, w)
           | Inr cover \<Rightarrow>
               let pic = \<lparr>Encoding = EncodingUTF8, MimeType = ''image/jpeg'',
                          PictureType = PTFrontCover, Description = ''Cover'',
                          Picture = cover\<rparr>;
                   tag2 = AddAttachedPicture tag1 pic
               in Save mp3Path tag2 w))"

text \<open>The picture frame that \<^verbatim>\<open>tagEpisode\<close> attaches, for the bytes of the cover.\<close>

definition tagger_picture :: "bytes \<Rightarrow> PictureFrame" where
  "tagger_picture cover =
     \<lparr>Encoding = EncodingUTF8, MimeType = ''image/jpeg'',
      PictureType = PTFrontCover, Description = ''Cover'', Picture = cover\<rparr>"

subsection \<open>The completion checks\<close>

text \<open>Last revision (and the second): \<^verbatim>\<open>metadataComplete\<close>.\<close>

definition metadataComplete :: "world \<Rightarrow> string \<Rightarrow> bool \<times> error option" where
  "metadataComplete w mp3Path =
     (case Open w mp3Path of
        Inl err \<Rightarrow> (False, Some err)
      | Inr tag \<Rightarrow>
          if Album tag \<noteq> ''Music For Programming'' then (False, None)
          else
            let frames = GetFrames tag ''APIC'' in
            if length frames = 0 then (False, None) else (True, None))"

text \<open>
  Second revision of \<^verbatim>\<open>main.go\<close>: \<^verbatim>\<open>fileIsComplete\<close>; its size check is commented
  out, so neither the URL nor the expected size is read.
\<close>

definition fileIsComplete :: "world \<Rightarrow> string \<Rightarrow> string \<Rightarrow> int \<Rightarrow> bool" where
  "fileIsComplete w url path expectedSize =
     (let (metaOk, err) = metadataComplete w path in
      if err \<noteq> None \<or> \<not> metaOk then False else True)"

text \<open>First revision of \<^verbatim>\<open>main.go\<close>: \<^verbatim>\<open>fileComplete\<close>.\<close>

definition fileComplete :: "world \<Rightarrow> string \<Rightarrow> string \<Rightarrow> bool" where
  "fileComplete w url path =
     (case Stat w path of
        Inl err \<Rightarrow> False
      | Inr size_ \<Rightarrow>
          (case remote w url of
             Inl err \<Rightarrow> False
           | Inr resp \<Rightarrow> size_ = ContentLength resp))"

text \<open>
  The check of the last revision is written inside the worker: \<^verbatim>\<open>os.Stat\<close> succeeds
  and \<^verbatim>\<open>metadataComplete\<close> answers true.
\<close>

definition complete_last :: "world \<Rightarrow> string \<Rightarrow> bool" where
  "complete_last w targetPath =
     (case Stat w targetPath of
        Inl err \<Rightarrow> False
      | Inr info \<Rightarrow> fst (metadataComplete w targetPath))"

text \<open>What the claims say about a file, read off the file itself.\<close>

definition stored_tag :: "content \<Rightarrow> Tag option" where
  "stored_tag f = (case id3 f of HasTag t \<Rightarrow> Some t | _ \<Rightarrow> None)"

definition has_album :: "content \<Rightarrow> bool" where
  "has_album f =
     (case stored_tag f of
        None \<Rightarrow> False
      | Some t \<Rightarrow> text_frames t ''TALB'' = Some ''Music For Programming'')"

definition cover_frames :: "content \<Rightarrow> PictureFrame list" where
  "cover_frames f = (case stored_tag f of None \<Rightarrow> [] | Some t \<Rightarrow> pictures t)"

subsection \<open>The worker of each revision\<close>

text \<open>Last revision (\<^verbatim>\<open>part_000\<close>): the body of the goroutine started for an episode.\<close>

definition worker :: "'e Downloader \<Rightarrow> Episode \<Rightarrow> world \<Rightarrow> world" where
  "worker d ep w =
     (let coverPath = Join (OutputDir d) ''cover.jpg'';
          name = fileName ep;
          targetPath = Join (OutputDir d) name
      in
        case Stat w targetPath of
          Inr info \<Rightarrow>
            let (metaOk, err) = metadataComplete w targetPath;
                w1 = (case err of Some e \<Rightarrow> log (ErrReadingMetadata name e) w | None \<Rightarrow> w)
            in
              if metaOk then log (AlreadyComplete name) w1
              else
                let w2 = log (MetadataIncomplete name) w1;
                    (err, w3) = tagEpisode targetPath coverPath w2
                in (case err of
                      Some e \<Rightarrow> log (ErrUpdatingMetadata name e) w3
                    | None \<Rightarrow> log (MetadataUpdated name) w3)
        | Inl statErr \<Rightarrow>
            let w1 = log (Downloading name) w;
                (err, w2) = downloadFile (URL ep) targetPath w1
            in (case err of
                  Some e \<Rightarrow> log (ErrDownloading name e) w2
                | None \<Rightarrow>
                    let (err, w3) = tagEpisode targetPath coverPath w2
                    in (case err of
                          Some e \<Rightarrow> log (ErrTagging name e) w3
                        | None \<Rightarrow> log (Processed name) w3)))"

text \<open>First revision of \<^verbatim>\<open>main.go\<close>.\<close>

definition worker1 :: "'e Downloader \<Rightarrow> Episode \<Rightarrow> world \<Rightarrow> world" where
  "worker1 d ep w =
     (let name = fileName ep;
          targetPath = Join (OutputDir d) name
      in
        if fileComplete w (URL ep) targetPath then log (AlreadyDownloaded name) w
        else
          let w1 = log (Downloading name) w;
              (err, w2) = downloadFile (URL ep) targetPath w1
          in (case err of
                Some e \<Rightarrow> log (ErrDownloading name e) w2
              | None \<Rightarrow>
                  let (err, w3) = tagEpisode targetPath (Join (OutputDir d) ''cover.jpg'') w2
                  in (case err of
                        Some e \<Rightarrow> log (ErrTagging name e) w3
                      | None \<Rightarrow> log (Processed name) w3)))"

text \<open>Second revision of \<^verbatim>\<open>main.go\<close>.\<close>

definition worker2 :: "'e Downloader \<Rightarrow> Episode2 \<Rightarrow> world \<Rightarrow> world" where
  "worker2 d ep w =
     (let name = fileName ep;
          targetPath = Join (OutputDir d) name
      in
        if fileIsComplete w (URL ep) targetPath (ExpectedSize ep) then log (AlreadyComplete name) w
        else
          let w1 = log (Downloading name) w;
              (err, w2) = downloadFile (URL ep) targetPath w1
          in (case err of
                Some e \<Rightarrow> log (ErrDownloading name e) w2
              | None \<Rightarrow>
                  let (err, w3) = tagEpisode targetPath (Join (OutputDir d) ''cover.jpg'') w2
                  in (case err of
                        Some e \<Rightarrow> log (ErrTagging name e) w3
                      | None \<Rightarrow> log (Processed name) w3)))"

subsection \<open>downloadAndTagEpisodes (last revision): the goroutines\<close>

text \<open>
  \<^verbatim>\<open>downloadAndTagEpisodes\<close> as a transition system. The function itself runs the
  loop: \<^verbatim>\<open>wg.Add(1)\<close>, then the send \<^verbatim>\<open>sem <- struct{}{}\<close> on the channel of capacity
  3, then the \<^verbatim>\<open>go\<close> statement; after the loop it calls \<^verbatim>\<open>wg.Wait()\<close>. A goroutine
  runs its body (the worker, taken as one step: the episode is being checked, fetched
  or tagged while its goroutine is \<open>Started\<close>), then its deferred calls in reverse order
  of registration: the receive \<^verbatim>\<open><-sem\<close>, then \<^verbatim>\<open>wg.Done()\<close>.
  A send blocks while the channel is full, a receive while it is empty, and
  \<^verbatim>\<open>wg.Wait()\<close> while the counter is not zero: a blocked operation is a step that is
  not enabled.
\<close>

datatype phase = Started | BodyDone | Released | Gone

datatype pc = Loop | Sending Episode | Spawning Episode | Waiting | Returned

record pool =
  pc :: pc
  pending :: "Episode list"
  sem :: nat
  wg :: nat
  goroutines :: "(Episode \<times> phase) list"
  wld :: world

definition init :: "Episode Downloader \<Rightarrow> world \<Rightarrow> pool" where
  "init d w = \<lparr>pc = Loop, pending = Episodes d, sem = 0, wg = 0, goroutines = [], wld = w\<rparr>"

inductive step :: "Episode Downloader \<Rightarrow> pool \<Rightarrow> pool \<Rightarrow> bool" for d :: "Episode Downloader" where
  loop_add: "pc s = Loop \<Longrightarrow> pending s = ep # rest \<Longrightarrow>
        step d s (s\<lparr>pc := Sending ep, pending := rest, wg := wg s + 1\<rparr>)"
| loop_send: "pc s = Sending ep \<Longrightarrow> sem s < 3 \<Longrightarrow>
        step d s (s\<lparr>pc := Spawning ep, sem := sem s + 1\<rparr>)"
| loop_go: "pc s = Spawning ep \<Longrightarrow>
        step d s (s\<lparr>pc := Loop, goroutines := goroutines s @ [(ep, Started)]\<rparr>)"
| loop_wait: "pc s = Loop \<Longrightarrow> pending s = [] \<Longrightarrow>
        step d s (s\<lparr>pc := Waiting\<rparr>)"
| wait_pass: "pc s = Waiting \<Longrightarrow> wg s = 0 \<Longrightarrow>
        step d s (s\<lparr>pc := Returned\<rparr>)"
| run_body: "goroutines s = xs @ (ep, Started) # ys \<Longrightarrow>
        step d s (s\<lparr>goroutines := xs @ (ep, BodyDone) # ys, wld := worker d ep (wld s)\<rparr>)"
| release_slot: "goroutines s = xs @ (ep, BodyDone) # ys \<Longrightarrow> 0 < sem s \<Longrightarrow>
        step d s (s\<lparr>goroutines := xs @ (ep, Released) # ys, sem := sem s - 1\<rparr>)"
| wg_done: "goroutines s = xs @ (ep, Released) # ys \<Longrightarrow> 0 < wg s \<Longrightarrow>
        step d s (s\<lparr>goroutines := xs @ (ep, Gone) # ys, wg := wg s - 1\<rparr>)"

code_pred step .

definition reachable :: "Episode Downloader \<Rightarrow> world \<Rightarrow> pool \<Rightarrow> bool" where
  "reachable d w s = (step d)\<^sup>*\<^sup>* (init d w) s"

text \<open>The goroutines that hold a slot of the semaphore, and those inside their body.\<close>

definition holding :: "pool \<Rightarrow> (Episode \<times> phase) list" where
  "holding s = filter (\<lambda>g. snd g = Started \<or> snd g = BodyDone) (goroutines s)"

definition in_body :: "pool \<Rightarrow> (Episode \<times> phase) list" where
  "in_body s = filter (\<lambda>g. snd g = Started) (goroutines s)"

text \<open>
  The bookkeeping of the semaphore and of the wait group: the channel holds one element
  for every goroutine that has not yet received from it (and one more between the send
  and the \<^verbatim>\<open>go\<close> statement); the counter of the wait group counts the goroutines that
  have not called \<^verbatim>\<open>wg.Done()\<close> (and the one about to be started).
\<close>

definition slots_inv :: "pool \<Rightarrow> bool" where
  "slots_inv s \<longleftrightarrow>
     sem s = length (holding s) + (case pc s of Spawning ep \<Rightarrow> 1 | _ \<Rightarrow> 0) \<and> sem s \<le> 3"

definition wg_inv :: "pool \<Rightarrow> bool" where
  "wg_inv s \<longleftrightarrow>
     wg s = length (filter (\<lambda>g. snd g \<noteq> Gone) (goroutines s)) +
            (case pc s of Sending ep \<Rightarrow> 1 | Spawning ep \<Rightarrow> 1 | _ \<Rightarrow> 0)"

text \<open>The episode that the loop has taken from the list and not yet handed to a goroutine.\<close>

fun in_hand :: "pc \<Rightarrow> Episode list" where
  "in_hand (Sending ep) = [ep]"
| "in_hand (Spawning ep) = [ep]"
| "in_hand other = []"

text \<open>A measure that every step decreases.\<close>

fun phase_weight :: "phase \<Rightarrow> nat" where
  "phase_weight Started = 3"
| "phase_weight BodyDone = 2"
| "phase_weight Released = 1"
| "phase_weight Gone = 0"

fun pc_weight :: "pc \<Rightarrow> nat" where
  "pc_weight Loop = 2"
| "pc_weight (Sending ep) = 7"
| "pc_weight (Spawning ep) = 6"
| "pc_weight Waiting = 1"
| "pc_weight Returned = 0"

definition steps_left :: "pool \<Rightarrow> nat" where
  "steps_left s =
     6 * length (pending s) + pc_weight (pc s) + sum_list (map (\<lambda>g. phase_weight (snd g)) (goroutines s))"

text \<open>
  The run in which every goroutine ends before the next one is started: the episodes
  are processed in list order.
\<close>

definition downloadAndTagEpisodes :: "Episode Downloader \<Rightarrow> world \<Rightarrow> world" where
  "downloadAndTagEpisodes d w = foldl (\<lambda>w ep. worker d ep w) w (Episodes d)"

text \<open>
  The log line that ends the processing of an episode, with the file name it carries.
\<close>

fun terminal_name :: "event \<Rightarrow> string option" where
  "terminal_name (Log (AlreadyComplete n)) = Some n"
| "terminal_name (Log (MetadataUpdated n)) = Some n"
| "terminal_name (Log (ErrUpdatingMetadata n e)) = Some n"
| "terminal_name (Log (ErrDownloading n e)) = Some n"
| "terminal_name (Log (ErrTagging n e)) = Some n"
| "terminal_name (Log (Processed n)) = Some n"
| "terminal_name ev = None"

definition terminal_names :: "world \<Rightarrow> string list" where
  "terminal_names w = List.map_filter terminal_name (trace w)"

subsection \<open>main\<close>

definition prepareOutput :: "'e Downloader \<Rightarrow> world \<Rightarrow> error option" where
  "prepareOutput d w = denied w (OutputDir d)"

definition fetchCover :: "'e Downloader \<Rightarrow> world \<Rightarrow> error option \<times> world" where
  "fetchCover d w =
     (let coverPath = Join (OutputDir d) ''cover.jpg'' in
      case Stat w coverPath of
        Inr info \<Rightarrow> (None, w)
      | Inl statErr \<Rightarrow>
          (case remote w (CoverURL d) of
             Inl err \<Rightarrow> (Some (Wrap ''failed to fetch cover'' err), w)
           | Inr resp \<Rightarrow>
               (case denied w coverPath of
                  Some err \<Rightarrow> (Some (Wrap ''failed to create cover file'' err), w)
                | None \<Rightarrow>
                    let w' = w\<lparr>files := (files w)(coverPath \<mapsto> body resp)\<rparr> in
                    (case copy_error resp of
                       Some err \<Rightarrow> (Some (Wrap ''failed to write cover file'' err), w')
                     | None \<Rightarrow> (None, log CoverDownloaded w')))))"

text \<open>
  \<^verbatim>\<open>main\<close>: \<open>args\<close> are the positional arguments left by \<^verbatim>\<open>flag.Parse()\<close>. The
  result is the exit status of the process and the world it leaves; \<^verbatim>\<open>log.Fatalf\<close>
  logs and exits with status 1. The episodes are processed by the run in list order.
\<close>

definition main :: "string list \<Rightarrow> world \<Rightarrow> int \<times> world" where
  "main args w =
     (let outputDir = (if length args > 0 then args ! 0 else ''downloaded_music'');
          d = newDownloader outputDir ''https://musicforprogramming.net/rss.php''
                ''https://musicforprogramming.net/img/folder.jpg''
      in
        case prepareOutput d w of
          Some err \<Rightarrow> (1, log (FatalPreparingOutput err) w)
        | None \<Rightarrow>
            (case fetchCover d w of
               (Some err, w1) \<Rightarrow> (1, log (FatalFetchingCover err) w1)
             | (None, w1) \<Rightarrow>
                 (case loadEpisodes (feeds w1 (FeedURL d)) d of
                    (Some err, d', lg) \<Rightarrow>
                      (1, log (FatalLoadingEpisodes err) (w1\<lparr>trace := trace w1 @ map Log lg\<rparr>))
                  | (None, d', lg) \<Rightarrow>
                      (0, downloadAndTagEpisodes d' (w1\<lparr>trace := trace w1 @ map Log lg\<rparr>)))))"

subsection \<open>What a run did\<close>

text \<open>
  \<^verbatim>\<open>downloadFile\<close> and \<^verbatim>\<open>tagEpisode\<close> record their invocation in the trace of the
  world; the calls between two worlds are the recorded events that are not log lines.
\<close>

fun is_call :: "event \<Rightarrow> bool" where
  "is_call (Log l) = False"
| "is_call (DownloadFile url dest) = True"
| "is_call (TagEpisode mp3Path coverPath) = True"

definition calls_since :: "world \<Rightarrow> world \<Rightarrow> event list" where
  "calls_since w w' = filter is_call (drop (length (trace w)) (trace w'))"

subsection \<open>What the worker of an episode reads and what it leaves\<close>

definition targetPath :: "'e Downloader \<Rightarrow> Episode \<Rightarrow> string" where
  "targetPath d ep = Join (OutputDir d) (fileName ep)"

definition coverPath :: "'e Downloader \<Rightarrow> string" where
  "coverPath d = Join (OutputDir d) ''cover.jpg''"

text \<open>
  Two worlds give the worker of an episode the same inputs when they agree on the target
  file of the episode, on the cover file, on the answer of the server for the URL of the
  episode, on whether the target can be written, and on the byte images. The trace and
  all other files, the targets of the other episodes among them, are left out.
\<close>

definition same_inputs :: "'e Downloader \<Rightarrow> Episode \<Rightarrow> world \<Rightarrow> world \<Rightarrow> bool" where
  "same_inputs d ep w w' \<longleftrightarrow>
     files w (targetPath d ep) = files w' (targetPath d ep) \<and>
     files w (coverPath d) = files w' (coverPath d) \<and>
     remote w (URL ep) = remote w' (URL ep) \<and>
     denied w (targetPath d ep) = denied w' (targetPath d ep) \<and>
     raw w = raw w'"

text \<open>
  The relation that the worker keeps between two runs with the same inputs: the inputs
  stay the same, and so do the events appended since the two runs started (at lengths
  \<open>n\<close> and \<open>n'\<close> of the traces).
\<close>

definition sim :: "'e Downloader \<Rightarrow> Episode \<Rightarrow> nat \<Rightarrow> nat \<Rightarrow> world \<Rightarrow> world \<Rightarrow> bool" where
  "sim d ep n n' w w' \<longleftrightarrow>
     same_inputs d ep w w' \<and> n \<le> length (trace w) \<and> n' \<le> length (trace w') \<and>
     drop n (trace w) = drop n' (trace w')"

text \<open>
  What no call of the program changes: a later world keeps the server, the write
  permissions and the byte images, and its trace extends the earlier one.
\<close>

definition keeps :: "world \<Rightarrow> world \<Rightarrow> bool" where
  "keeps w w' \<longleftrightarrow>
     remote w' = remote w \<and> denied w' = denied w \<and> raw w' = raw w \<and>
     (\<exists>es. trace w' = trace w @ es)"

text \<open>The events that the worker of an episode appends to the trace.\<close>

definition new_events :: "'e Downloader \<Rightarrow> Episode \<Rightarrow> world \<Rightarrow> event list" where
  "new_events d ep w = drop (length (trace w)) (trace (worker d ep w))"

text \<open>The episodes whose goroutine has run its body, in the order of their dispatch.\<close>

definition finished :: "pool \<Rightarrow> Episode list" where
  "finished s = map fst (filter (\<lambda>g. snd g \<noteq> Started) (goroutines s))"

text \<open>
  The episodes of the list have targets of their own: no two share a target, and no
  target is the cover file.
\<close>

definition separate_targets :: "Episode Downloader \<Rightarrow> bool" where
  "separate_targets d \<longleftrightarrow>
     distinct (map (targetPath d) (Episodes d)) \<and>
     coverPath d \<notin> set (map (targetPath d) (Episodes d))"

text \<open>
  What isolation means in a state of a run that started in \<open>w\<close>: the server, the write
  permissions and the byte images are those of \<open>w\<close>; a file that is not the target of
  a finished episode is as in \<open>w\<close>; the target of a finished episode is as its worker
  leaves it when run alone in \<open>w\<close>; and the trace is that of \<open>w\<close> followed by the
  events of the finished episodes, each block as when run alone in \<open>w\<close>, in the order
  in which the bodies ran.
\<close>

definition isolated :: "Episode Downloader \<Rightarrow> world \<Rightarrow> pool \<Rightarrow> bool" where
  "isolated d w s \<longleftrightarrow>
     remote (wld s) = remote w \<and> denied (wld s) = denied w \<and> raw (wld s) = raw w \<and>
     (\<forall>q. q \<notin> set (map (targetPath d) (finished s)) \<longrightarrow> files (wld s) q = files w q) \<and>
     (\<forall>ep \<in> set (finished s).
        files (wld s) (targetPath d ep) = files (worker d ep w) (targetPath d ep)) \<and>
     (\<exists>order. mset order = mset (finished s) \<and>
        trace (wld s) = trace w @ concat (map (\<lambda>ep. new_events d ep w) order))"

section \<open>Example worlds\<close>

text \<open>Concrete inputs for the closed statements below.\<close>

definition target_example :: string where
  "target_example = ''out/07 - Night Drive.mp3''"

definition cover_example :: string where
  "cover_example = ''out/cover.jpg''"

definition untagged :: content where
  "untagged = \<lparr>id3 = NoTag, audio = ''twelve bytes''\<rparr>"

definition jpeg :: content where
  "jpeg = \<lparr>id3 = NoTag, audio = ''JFIF''\<rparr>"

definition server :: "string \<Rightarrow> error + response" where
  "server url = Inr \<lparr>ContentLength = 12, body = untagged, copy_error = None\<rparr>"

definition no_feed :: "string \<Rightarrow> error + Item list" where
  "no_feed url = Inl (Error ''no feed'')"




definition corrupt :: content where
  "corrupt = \<lparr>id3 = BadTag (Error ''unsupported version of ID3 tag''), audio = ''abc''\<rparr>"

text \<open>A directory that holds the cover and a file whose container cannot be read.\<close>

definition world_corrupt :: world where
  "world_corrupt =
     \<lparr>files = [cover_example \<mapsto> jpeg, target_example \<mapsto> corrupt],
      remote = server, feeds = no_feed, denied = Map.empty, raw = audio, trace = []\<rparr>"

definition episode07 :: Episode where
  "episode07 = \<lparr>Number = ''07'', Title = ''Night Drive'', URL = ''https://host/ep07.mp3''\<rparr>"

definition episode07_sized :: Episode2 where
  "episode07_sized =
     \<lparr>Number = ''07'', Title = ''Night Drive'', URL = ''https://host/ep07.mp3'', ExpectedSize = 0\<rparr>"

definition tagged :: content where
  "tagged =
     \<lparr>id3 = HasTag \<lparr>text_frames = [''TALB'' \<mapsto> ''Music For Programming''],
                      pictures = [tagger_picture ''JFIF'']\<rparr>,
      audio = ''abc''\<rparr>"

text \<open>A directory that holds the cover and a tagged file.\<close>

definition world_tagged :: world where
  "world_tagged =
     \<lparr>files = [cover_example \<mapsto> jpeg, target_example \<mapsto> tagged],
      remote = server, feeds = no_feed, denied = Map.empty, raw = audio, trace = []\<rparr>"

definition episode :: "string \<Rightarrow> Episode" where
  "episode n = \<lparr>Number = n, Title = ''Night Drive'', URL = ''https://host/ep.mp3''\<rparr>"

definition four_episodes :: "Episode Downloader" where
  "four_episodes =
     \<lparr>OutputDir = ''out'', FeedURL = ''feed'', CoverURL = ''cover'',
      Episodes = [episode ''01'', episode ''02'', episode ''03'', episode ''04'']\<rparr>"

text \<open>Three goroutines are running and the loop is at its send for the fourth episode.\<close>

definition blocked_pool :: "world \<Rightarrow> pool" where
  "blocked_pool w =
     \<lparr>pc = Sending (episode ''04''), pending = [], sem = 3, wg = 4,
      goroutines = [(episode ''01'', Started), (episode ''02'', Started), (episode ''03'', Started)],
      wld = w\<rparr>"

definition episode01 :: Episode where
  "episode01 = \<lparr>Number = ''01'', Title = ''Night Drive'', URL = ''https://host/ep01.mp3''\<rparr>"

definition episode02 :: Episode where
  "episode02 = \<lparr>Number = ''02'', Title = ''Night Drive'', URL = ''https://host/ep02.mp3''\<rparr>"

text \<open>A server that cannot be reached for the first episode and answers for the rest.\<close>

definition flaky :: "string \<Rightarrow> error + response" where
  "flaky url =
     (if url = ''https://host/ep01.mp3'' then Inl (Error ''no route to host'')
      else Inr \<lparr>ContentLength = 12, body = untagged, copy_error = None\<rparr>)"

definition first_and_second :: "Episode Downloader" where
  "first_and_second =
     \<lparr>OutputDir = ''out'', FeedURL = ''feed'', CoverURL = ''cover'',
      Episodes = [episode01, episode02]\<rparr>"

definition feed_newest_first :: "string \<Rightarrow> error + Item list" where
  "feed_newest_first url =
     Inr [\<lparr>item_Title = ''Episode 02: Night Drive'',
           item_Enclosures = [\<lparr>enc_URL = ''https://host/ep02.mp3'', enc_Length = ''12'', enc_Type = ''audio/mpeg''\<rparr>]\<rparr>,
          \<lparr>item_Title = ''Episode 01: Night Drive'',
           item_Enclosures = [\<lparr>enc_URL = ''https://host/ep01.mp3'', enc_Length = ''12'', enc_Type = ''audio/mpeg''\<rparr>]\<rparr>]"

text \<open>A directory that holds the cover only, with that server and that feed.\<close>

definition world_flaky :: world where
  "world_flaky =
     \<lparr>files = [cover_example \<mapsto> jpeg],
      remote = flaky, feeds = feed_newest_first, denied = Map.empty, raw = audio, trace = []\<rparr>"

text \<open>The state in which \<^verbatim>\<open>wg.Wait()\<close> has returned after the run in list order.\<close>

definition after_run :: "Episode Downloader \<Rightarrow> world \<Rightarrow> pool" where
  "after_run d w =
     \<lparr>pc = Returned, pending = [], sem = 0, wg = 0,
      goroutines = map (\<lambda>ep. (ep, Gone)) (Episodes d),
      wld = downloadAndTagEpisodes d w\<rparr>"

definition world_untagged :: world where
  "world_untagged =
     \<lparr>files = [cover_example \<mapsto> jpeg, target_example \<mapsto> untagged],
      remote = server, feeds = no_feed, denied = Map.empty, raw = audio, trace = []\<rparr>"

section \<open>Properties of the feed loader\<close>

subsection \<open>The matcher and the pattern\<close>

lemma strip_prefix_Some: "strip_prefix p s = Some r \<longleftrightarrow> s = p @ r"
  by (induction p s rule: strip_prefix.induct) auto

lemma strip_prefix_append [simp]: "strip_prefix p (p @ r) = Some r"
  by (simp add: strip_prefix_Some)

lemma isSpace_not_isDigit: "isDigit c \<Longrightarrow> \<not> isSpace c"
  by (auto simp: isSpace_def isDigit_def)

lemma colon_not_isDigit: "\<not> isDigit CHR '':''"
  by (simp add: isDigit_def)

lemma FindStringSubmatch_shape:
  "FindStringSubmatch s = [] \<or>
   (\<exists>n t. FindStringSubmatch s = [s, n, t] \<and> n \<noteq> [] \<and> list_all isDigit n \<and>
      t \<noteq> [] \<and> newline \<notin> set t)"
  unfolding FindStringSubmatch_def
  by (auto simp: Let_def list_all_iff split: option.splits list.splits dest: set_takeWhileD)

lemma matches_patternI:
  "s = ''Episode'' @ ws @ ds @ '':'' @ ws' @ t \<Longrightarrow> ws \<noteq> [] \<Longrightarrow> list_all isSpace ws \<Longrightarrow>
   ds \<noteq> [] \<Longrightarrow> list_all isDigit ds \<Longrightarrow> list_all isSpace ws' \<Longrightarrow> t \<noteq> [] \<Longrightarrow>
   newline \<notin> set t \<Longrightarrow> matches_pattern s"
  unfolding matches_pattern_def by blast

lemma FindStringSubmatch_sound:
  assumes "FindStringSubmatch s \<noteq> []"
  shows "matches_pattern s"
proof -
  from assms obtain r1 where r1: "strip_prefix ''Episode'' s = Some r1"
    unfolding FindStringSubmatch_def by (auto split: option.splits)
  define ws where "ws = takeWhile isSpace r1"
  define r2 where "r2 = dropWhile isSpace r1"
  define ds where "ds = takeWhile isDigit r2"
  define r3 where "r3 = dropWhile isDigit r2"
  from assms r1 have ws: "ws \<noteq> []" and ds: "ds \<noteq> []"
    unfolding FindStringSubmatch_def ws_def ds_def r2_def
    by (auto simp: Let_def split: if_splits)
  from assms r1 ws ds obtain r4 where r3: "r3 = CHR '':'' # r4"
    unfolding FindStringSubmatch_def ws_def ds_def r2_def r3_def
    by (auto simp: Let_def split: if_splits list.splits)
  define r5 where "r5 = dropWhile isSpace r4"
  have s: "s = ''Episode'' @ ws @ ds @ '':'' @ r4"
    using r1 r3 unfolding strip_prefix_Some ws_def r2_def ds_def r3_def
    by (metis append_Cons append_Nil takeWhile_dropWhile_id)
  have tail: "(r5 \<noteq> [] \<and> newline \<notin> set r5) \<or> (r5 = [] \<and> r4 \<noteq> [] \<and> last r4 \<noteq> newline)"
    using assms r1 ws ds r3
    unfolding FindStringSubmatch_def ws_def ds_def r2_def r3_def r5_def
    by (auto simp: Let_def split: if_splits)
  have wsS: "list_all isSpace ws" and dsD: "list_all isDigit ds"
    unfolding ws_def ds_def by (auto simp: list_all_iff dest: set_takeWhileD)
  from tail show ?thesis
  proof
    assume a: "r5 \<noteq> [] \<and> newline \<notin> set r5"
    have "r4 = takeWhile isSpace r4 @ r5" unfolding r5_def by simp
    moreover have "list_all isSpace (takeWhile isSpace r4)"
      by (auto simp: list_all_iff dest: set_takeWhileD)
    ultimately show ?thesis
      using s ws ds wsS dsD a
      by (intro matches_patternI[of s ws ds "takeWhile isSpace r4" r5]) simp_all
  next
    assume a: "r5 = [] \<and> r4 \<noteq> [] \<and> last r4 \<noteq> newline"
    then have all: "list_all isSpace r4"
      unfolding r5_def by (simp add: list_all_iff)
    have "r4 = butlast r4 @ [last r4]" using a by simp
    moreover have "list_all isSpace (butlast r4)"
      using all by (auto simp: list_all_iff dest: in_set_butlastD)
    moreover have "newline \<noteq> last r4" using a by auto
    ultimately show ?thesis
      using s ws ds wsS dsD a
      by (intro matches_patternI[of s ws ds "butlast r4" "[last r4]"]) simp_all
  qed
qed

lemma FindStringSubmatch_decomposed:
  assumes ws: "ws \<noteq> []" "list_all isSpace ws" and ds: "ds \<noteq> []" "list_all isDigit ds"
  shows "FindStringSubmatch (''Episode'' @ ws @ ds @ CHR '':'' # r4) =
      (let r5 = dropWhile isSpace r4 in
       if r5 \<noteq> [] then
         (if newline \<in> set r5 then [] else [''Episode'' @ ws @ ds @ CHR '':'' # r4, ds, r5])
       else if r4 = [] \<or> last r4 = newline then []
       else [''Episode'' @ ws @ ds @ CHR '':'' # r4, ds, [last r4]])"
proof -
  define r3 where "r3 = CHR '':'' # r4"
  define r2 where "r2 = ds @ r3"
  define r1 where "r1 = ws @ r2"
  obtain d ds' where dd: "ds = d # ds'" using ds(1) by (cases ds) auto
  have dnot: "\<not> isSpace d" using ds(2) dd isSpace_not_isDigit by simp
  have r1: "strip_prefix ''Episode'' (''Episode'' @ r1) = Some r1"
    by (rule strip_prefix_append)
  have tw1: "takeWhile isSpace r1 = ws" and dw1: "dropWhile isSpace r1 = r2"
    unfolding r1_def r2_def using ws(2) dnot dd by (simp_all add: list_all_iff)
  have tw2: "takeWhile isDigit r2 = ds" and dw2: "dropWhile isDigit r2 = r3"
    unfolding r2_def r3_def using ds(2) colon_not_isDigit by (simp_all add: list_all_iff)
  have "FindStringSubmatch (''Episode'' @ r1) =
      (let r5 = dropWhile isSpace r4 in
       if r5 \<noteq> [] then
         (if newline \<in> set r5 then [] else [''Episode'' @ r1, ds, r5])
       else if r4 = [] \<or> last r4 = newline then []
       else [''Episode'' @ r1, ds, [last r4]])"
    unfolding FindStringSubmatch_def r1 option.case Let_def tw1 dw1 tw2 dw2
    using ws(1) ds(1) by (simp add: r3_def)
  then show ?thesis unfolding r1_def r2_def r3_def .
qed

lemma FindStringSubmatch_complete:
  assumes "matches_pattern s"
  shows "FindStringSubmatch s \<noteq> []"
proof -
  from assms obtain ws ds ws' t where
    s: "s = ''Episode'' @ ws @ ds @ '':'' @ ws' @ t" and
    ws: "ws \<noteq> []" "list_all isSpace ws" and
    ds: "ds \<noteq> []" "list_all isDigit ds" and
    ws': "list_all isSpace ws'" and
    t: "t \<noteq> []" "newline \<notin> set t"
    unfolding matches_pattern_def by blast
  have s': "s = ''Episode'' @ ws @ ds @ CHR '':'' # (ws' @ t)"
    using s by simp
  have dw3: "dropWhile isSpace (ws' @ t) = dropWhile isSpace t"
    using ws' by (simp add: list_all_iff)
  have "newline \<notin> set (dropWhile isSpace t)"
    using t(2) by (metis set_dropWhileD)
  moreover have "last (ws' @ t) \<noteq> newline"
    using t by (metis last_appendR last_in_set)
  ultimately show ?thesis
    unfolding s' FindStringSubmatch_decomposed[OF ws ds] dw3 Let_def using t(1) by simp
qed

lemma FindStringSubmatch_matches: "FindStringSubmatch s \<noteq> [] \<longleftrightarrow> matches_pattern s"
  using FindStringSubmatch_sound FindStringSubmatch_complete by blast

lemma FindStringSubmatch_length: "length (FindStringSubmatch s) = 3 \<longleftrightarrow> matches_pattern s"
  using FindStringSubmatch_shape[of s] FindStringSubmatch_matches[of s] by auto

lemma matches_pattern_code [code]: "matches_pattern s = (FindStringSubmatch s \<noteq> [])"
  by (simp add: FindStringSubmatch_matches)

subsection \<open>The reversal loop\<close>

lemma reverse_loop_nth:
  "0 \<le> i \<Longrightarrow> j < int (length es) \<Longrightarrow> k < length es \<Longrightarrow>
   length (reverse_loop i j es) = length es \<and>
   reverse_loop i j es ! k =
     (if i \<le> int k \<and> int k \<le> j then es ! nat (i + j - int k) else es ! k)"
proof (induction i j es arbitrary: k rule: reverse_loop.induct)
  case (1 i j es)
  show ?case
  proof (cases "i < j")
    case False
    have "i \<le> int k \<and> int k \<le> j \<Longrightarrow> nat (i + j - int k) = k"
      using False by auto
    then show ?thesis
      using False by (subst (1 2) reverse_loop.simps) auto
  next
    case True
    let ?es = "es[nat i := es ! nat j, nat j := es ! nat i]"
    have IH: "length (reverse_loop (i + 1) (j - 1) ?es) = length es"
      "reverse_loop (i + 1) (j - 1) ?es ! k =
        (if i + 1 \<le> int k \<and> int k \<le> j - 1 then ?es ! nat (i + j - int k) else ?es ! k)"
      using "1.IH"[OF True, of k] "1.prems" True by simp_all
    have r: "reverse_loop i j es = reverse_loop (i + 1) (j - 1) ?es"
      using True by (subst reverse_loop.simps) simp
    have bounds: "nat i < length es" "nat j < length es" "nat i \<noteq> nat j"
      using "1.prems" True by auto
    consider (lo) "int k = i" | (hi) "int k = j" | (inner) "i + 1 \<le> int k" "int k \<le> j - 1"
      | (out) "int k < i \<or> j < int k"
      by linarith
    then have "reverse_loop (i + 1) (j - 1) ?es ! k =
        (if i \<le> int k \<and> int k \<le> j then es ! nat (i + j - int k) else es ! k)"
    proof cases
      case lo
      then have "k = nat i" by simp
      then show ?thesis using IH(2) bounds True "1.prems" by (simp add: nth_list_update)
    next
      case hi
      then have "k = nat j" by simp
      then show ?thesis using IH(2) bounds True "1.prems" by (simp add: nth_list_update)
    next
      case inner
      then have "nat (i + j - int k) \<noteq> nat i" "nat (i + j - int k) \<noteq> nat j"
        using "1.prems" by auto
      then show ?thesis using IH(2) inner by (simp add: nth_list_update)
    next
      case out
      then have "int k \<noteq> i" "int k \<noteq> j" using True by auto
      moreover have "0 \<le> i" "0 \<le> j" using "1.prems"(1) True by auto
      ultimately have "k \<noteq> nat i" "k \<noteq> nat j" by auto
      then show ?thesis using IH(2) out by (auto simp add: nth_list_update)
    qed
    then show ?thesis using IH(1) unfolding r by simp
  qed
qed

lemma reverse_loop_rev: "reverse_loop 0 (int (length es) - 1) es = rev es"
proof (cases es)
  case Nil
  then show ?thesis by (subst reverse_loop.simps) simp
next
  case (Cons a as)
  then have len: "0 < length es" by simp
  have L: "length (reverse_loop 0 (int (length es) - 1) es) = length es"
    using reverse_loop_nth[of 0 "int (length es) - 1" es 0] len by simp
  show ?thesis
  proof (rule nth_equalityI)
    show "length (reverse_loop 0 (int (length es) - 1) es) = length (rev es)"
      using L by simp
  next
    fix k assume "k < length (reverse_loop 0 (int (length es) - 1) es)"
    then have k: "k < length es" using L by simp
    have n: "nat (int (length es) - 1 - int k) = length es - Suc k"
      using k by simp
    show "reverse_loop 0 (int (length es) - 1) es ! k = rev es ! k"
    proof (cases "0 < int (length es) - 1")
      case True
      then show ?thesis
        using reverse_loop_nth[of 0 "int (length es) - 1" es k] k n
        by (simp add: rev_nth)
    next
      case False
      then have "k = 0" "length es = 1" using k by auto
      then show ?thesis
        using reverse_loop_nth[of 0 "int (length es) - 1" es k] k
        by (simp add: rev_nth)
    qed
  qed
qed

subsection \<open>The loader\<close>

lemma collect_fst:
  "fst (collect items eps lg) =
     eps @ map (\<lambda>item. \<lparr>Number = FindStringSubmatch (item_Title item) ! 1,
                       Title = FindStringSubmatch (item_Title item) ! 2,
                       URL = enc_URL (item_Enclosures item ! 0)\<rparr>)
             (filter (\<lambda>item. item_Enclosures item \<noteq> [] \<and> matches_pattern (item_Title item)) items)"
proof (induction items arbitrary: eps lg)
  case Nil
  then show ?case by simp
next
  case (Cons item items)
  then show ?case by (simp add: Let_def FindStringSubmatch_length)
qed

lemma loadEpisodes_Inr:
  "loadEpisodes (Inr items) d =
     (None, d\<lparr>Episodes := rev (fst (collect items (Episodes d) []))\<rparr>,
      snd (collect items (Episodes d) []) @ [FoundEpisodes (length (fst (collect items (Episodes d) [])))])"
  by (simp add: loadEpisodes_def reverse_loop_rev split: prod.splits)

lemma Episodes_loadEpisodes:
  "Episodes (fst (snd (loadEpisodes (Inr items) d))) =
     rev (Episodes d @ map (\<lambda>item. \<lparr>Number = FindStringSubmatch (item_Title item) ! 1,
                       Title = FindStringSubmatch (item_Title item) ! 2,
                       URL = enc_URL (item_Enclosures item ! 0)\<rparr>)
             (filter (\<lambda>item. item_Enclosures item \<noteq> [] \<and> matches_pattern (item_Title item)) items))"
  by (simp add: loadEpisodes_Inr collect_fst)

text \<open>
  Claim C6. A feed item without an enclosure, or whose title does not match the pattern,
  leaves no trace in the episode list: loading the feed gives the same episodes as
  loading the feed without that item, and the load returns no error.
\<close>

theorem loadEpisodes_skips_item:
  assumes "item_Enclosures item = [] \<or> \<not> matches_pattern (item_Title item)"
  shows "fst (loadEpisodes (Inr (xs @ item # ys)) d) = None \<and>
         Episodes (fst (snd (loadEpisodes (Inr (xs @ item # ys)) d))) =
         Episodes (fst (snd (loadEpisodes (Inr (xs @ ys)) d)))"
proof -
  have "filter (\<lambda>item. item_Enclosures item \<noteq> [] \<and> matches_pattern (item_Title item)) (xs @ item # ys) =
        filter (\<lambda>item. item_Enclosures item \<noteq> [] \<and> matches_pattern (item_Title item)) (xs @ ys)"
    using assms by auto
  then show ?thesis
    unfolding Episodes_loadEpisodes by (simp add: loadEpisodes_Inr)
qed

text \<open>
  Claim C5. When the episode numbers declared by the accepted items are strictly
  descending in feed order (newest first), the loaded list is the collected list
  reversed, hence strictly ascending by episode number.
\<close>

theorem loadEpisodes_ascending:
  assumes "Episodes d = []"
    and "sorted_wrt (\<lambda>a b. num_val b < num_val a) (feed_numbers items)"
  shows "map Number (Episodes (fst (snd (loadEpisodes (Inr items) d)))) = rev (feed_numbers items) \<and>
         sorted_wrt (\<lambda>a b. num_val (Number a) < num_val (Number b))
           (Episodes (fst (snd (loadEpisodes (Inr items) d))))"
proof -
  have m: "map Number (Episodes (fst (snd (loadEpisodes (Inr items) d)))) = rev (feed_numbers items)"
    unfolding Episodes_loadEpisodes feed_numbers_def using assms(1)
    by (simp add: rev_map comp_def)
  have "sorted_wrt (\<lambda>a b. num_val a < num_val b) (rev (feed_numbers items))"
    using assms(2) by (simp add: sorted_wrt_rev)
  then have "sorted_wrt (\<lambda>a b. num_val a < num_val b)
     (map Number (Episodes (fst (snd (loadEpisodes (Inr items) d)))))"
    unfolding m .
  then have "sorted_wrt (\<lambda>a b. num_val (Number a) < num_val (Number b))
           (Episodes (fst (snd (loadEpisodes (Inr items) d))))"
    by (simp only: sorted_wrt_map)
  with m show ?thesis by (rule conjI)
qed


lemma collect2_fst:
  "fst (collect2 items eps lg) =
     eps @ map (\<lambda>item. \<lparr>Number = FindStringSubmatch (item_Title item) ! 1,
                       Title = FindStringSubmatch (item_Title item) ! 2,
                       URL = enc_URL (item_Enclosures item ! 0),
                       ExpectedSize =
                         (if enc_Length (item_Enclosures item ! 0) \<noteq> [] then
                            (case ParseInt (enc_Length (item_Enclosures item ! 0)) of
                               Inr sz \<Rightarrow> sz | Inl err \<Rightarrow> 0)
                          else 0)\<rparr>)
             (filter (\<lambda>item. item_Enclosures item \<noteq> [] \<and> matches_pattern (item_Title item)) items)"
proof (induction items arbitrary: eps lg)
  case Nil
  then show ?case by simp
next
  case (Cons item items)
  then show ?case by (simp add: Let_def FindStringSubmatch_length)
qed

lemma loadEpisodes2_Inr:
  "loadEpisodes2 (Inr items) d =
     (None, d\<lparr>Episodes := rev (fst (collect2 items (Episodes d) []))\<rparr>,
      snd (collect2 items (Episodes d) []) @ [FoundEpisodes (length (fst (collect2 items (Episodes d) [])))])"
  by (simp add: loadEpisodes2_def reverse_loop_rev split: prod.splits)

lemma collect_append:
  "collect (xs @ ys) eps lg = collect ys (fst (collect xs eps lg)) (snd (collect xs eps lg))"
  by (induction xs arbitrary: eps lg) (simp_all add: Let_def)

lemma collect2_append:
  "collect2 (xs @ ys) eps lg = collect2 ys (fst (collect2 xs eps lg)) (snd (collect2 xs eps lg))"
  by (induction xs arbitrary: eps lg) (simp_all add: Let_def)

lemma FindStringSubmatch_example:
  "FindStringSubmatch ''Episode 07: Night Drive'' =
     [''Episode 07: Night Drive'', ''07'', ''Night Drive'']"
  by (simp add: FindStringSubmatch_def isSpace_def isDigit_def newline_def Let_def)

lemma matches_pattern_example: "matches_pattern ''Episode 07: Night Drive''"
  using FindStringSubmatch_matches[of "''Episode 07: Night Drive''"]
  by (simp add: FindStringSubmatch_example)

lemma not_matches_pattern_example: "\<not> matches_pattern ''Intro''"
  using FindStringSubmatch_matches[of "''Intro''"]
  by (simp add: FindStringSubmatch_def)

text \<open>
  Claim C8. The item titled \<^verbatim>\<open>Episode 07: Night Drive\<close> with enclosure
  \<^verbatim>\<open>https://host/ep07.mp3\<close> becomes the episode with number \<^verbatim>\<open>07\<close>, title
  \<^verbatim>\<open>Night Drive\<close> and that URL; its file name is \<^verbatim>\<open>07 - Night Drive.mp3\<close>.
\<close>

theorem example_night_drive:
  "Episodes (fst (snd (loadEpisodes
       (Inr [\<lparr>item_Title = ''Episode 07: Night Drive'',
              item_Enclosures = [\<lparr>enc_URL = ''https://host/ep07.mp3'', enc_Length = l, enc_Type = ty\<rparr>]\<rparr>])
       (newDownloader outDir feedURL coverURL)))) =
     [\<lparr>Number = ''07'', Title = ''Night Drive'', URL = ''https://host/ep07.mp3''\<rparr>] \<and>
   map fileName (Episodes (fst (snd (loadEpisodes
       (Inr [\<lparr>item_Title = ''Episode 07: Night Drive'',
              item_Enclosures = [\<lparr>enc_URL = ''https://host/ep07.mp3'', enc_Length = l, enc_Type = ty\<rparr>]\<rparr>])
       (newDownloader outDir feedURL coverURL))))) = [''07 - Night Drive.mp3'']"
  by (simp add: Episodes_loadEpisodes newDownloader_def matches_pattern_example
      FindStringSubmatch_example fileName_def)

theorem loadEpisodes_skips_item_witness:
  "\<not> matches_pattern ''Intro'' \<and>
   fst (loadEpisodes
      (Inr ([\<lparr>item_Title = ''Episode 07: Night Drive'',
              item_Enclosures = [\<lparr>enc_URL = ''https://host/ep07.mp3'', enc_Length = ''10'', enc_Type = ''audio/mpeg''\<rparr>]\<rparr>] @
            \<lparr>item_Title = ''Intro'',
              item_Enclosures = [\<lparr>enc_URL = ''https://host/intro.mp3'', enc_Length = ''10'', enc_Type = ''audio/mpeg''\<rparr>]\<rparr> # []))
      (newDownloader ''out'' ''feed'' ''cover'')) = None \<and>
   Episodes (fst (snd (loadEpisodes
      (Inr ([\<lparr>item_Title = ''Episode 07: Night Drive'',
              item_Enclosures = [\<lparr>enc_URL = ''https://host/ep07.mp3'', enc_Length = ''10'', enc_Type = ''audio/mpeg''\<rparr>]\<rparr>] @
            \<lparr>item_Title = ''Intro'',
              item_Enclosures = [\<lparr>enc_URL = ''https://host/intro.mp3'', enc_Length = ''10'', enc_Type = ''audio/mpeg''\<rparr>]\<rparr> # []))
      (newDownloader ''out'' ''feed'' ''cover'')))) =
     [\<lparr>Number = ''07'', Title = ''Night Drive'', URL = ''https://host/ep07.mp3''\<rparr>]"
proof -
  have h: "\<not> matches_pattern ''Intro''" by (rule not_matches_pattern_example)
  show ?thesis
    using h loadEpisodes_skips_item[of "\<lparr>item_Title = ''Intro'',
              item_Enclosures = [\<lparr>enc_URL = ''https://host/intro.mp3'', enc_Length = ''10'', enc_Type = ''audio/mpeg''\<rparr>]\<rparr>"
       "[\<lparr>item_Title = ''Episode 07: Night Drive'',
              item_Enclosures = [\<lparr>enc_URL = ''https://host/ep07.mp3'', enc_Length = ''10'', enc_Type = ''audio/mpeg''\<rparr>]\<rparr>]"
       "[]" "newDownloader ''out'' ''feed'' ''cover''"]
    by (simp add: Episodes_loadEpisodes newDownloader_def matches_pattern_example
        FindStringSubmatch_example)
qed


text \<open>
  Claim C9. An item with a matching title and at least one enclosure yields an episode
  whose URL is that of the first enclosure, and the result of the load does not depend
  on the further enclosures. Both loaders (the one shared by the first and the last
  revision, and the second revision's) behave so.
\<close>

theorem first_enclosure_is_source:
  assumes "matches_pattern (item_Title item)" and "item_Enclosures item = e # es"
  shows "\<lparr>Number = FindStringSubmatch (item_Title item) ! 1,
          Title = FindStringSubmatch (item_Title item) ! 2,
          URL = enc_URL e\<rparr>
           \<in> set (Episodes (fst (snd (loadEpisodes (Inr (xs @ item # ys)) d)))) \<and>
         loadEpisodes (Inr (xs @ item # ys)) d =
           loadEpisodes (Inr (xs @ item\<lparr>item_Enclosures := [e]\<rparr> # ys)) d \<and>
         (\<exists>ep \<in> set (Episodes (fst (snd (loadEpisodes2 (Inr (xs @ item # ys)) d')))).
            Number ep = FindStringSubmatch (item_Title item) ! 1 \<and>
            Title ep = FindStringSubmatch (item_Title item) ! 2 \<and>
            URL ep = enc_URL e) \<and>
         loadEpisodes2 (Inr (xs @ item # ys)) d' =
           loadEpisodes2 (Inr (xs @ item\<lparr>item_Enclosures := [e]\<rparr> # ys)) d'"
proof -
  have m: "length (FindStringSubmatch (item_Title item)) = 3"
    using assms(1) by (simp add: FindStringSubmatch_length)
  have c1: "collect (item # ys) eps lg = collect (item\<lparr>item_Enclosures := [e]\<rparr> # ys) eps lg"
    for eps lg
    using assms(2) m by (simp add: Let_def)
  have c2: "collect2 (item # ys) eps lg = collect2 (item\<lparr>item_Enclosures := [e]\<rparr> # ys) eps lg"
    for eps lg
    using assms(2) m by (simp add: Let_def)
  have l1: "loadEpisodes (Inr (xs @ item # ys)) d =
      loadEpisodes (Inr (xs @ item\<lparr>item_Enclosures := [e]\<rparr> # ys)) d"
    unfolding loadEpisodes_Inr collect_append[of xs] c1 ..
  have l2: "loadEpisodes2 (Inr (xs @ item # ys)) d' =
      loadEpisodes2 (Inr (xs @ item\<lparr>item_Enclosures := [e]\<rparr> # ys)) d'"
    unfolding loadEpisodes2_Inr collect2_append[of xs] c2 ..
  have keep: "item_Enclosures item \<noteq> [] \<and> matches_pattern (item_Title item)"
    using assms by simp
  have e1: "\<lparr>Number = FindStringSubmatch (item_Title item) ! 1,
          Title = FindStringSubmatch (item_Title item) ! 2,
          URL = enc_URL e\<rparr>
           \<in> set (Episodes (fst (snd (loadEpisodes (Inr (xs @ item # ys)) d))))"
    unfolding Episodes_loadEpisodes using keep assms(2) by simp
  have e2: "\<exists>ep \<in> set (Episodes (fst (snd (loadEpisodes2 (Inr (xs @ item # ys)) d')))).
            Number ep = FindStringSubmatch (item_Title item) ! 1 \<and>
            Title ep = FindStringSubmatch (item_Title item) ! 2 \<and>
            URL ep = enc_URL e"
    unfolding loadEpisodes2_Inr collect2_fst using keep assms(2) by simp
  from e1 l1 e2 l2 show ?thesis by blast
qed

theorem first_enclosure_is_source_witness:
  "matches_pattern ''Episode 07: Night Drive'' \<and>
   \<lparr>Number = ''07'', Title = ''Night Drive'', URL = ''https://host/ep07.mp3''\<rparr>
      \<in> set (Episodes (fst (snd (loadEpisodes
          (Inr ([] @ \<lparr>item_Title = ''Episode 07: Night Drive'',
              item_Enclosures = [\<lparr>enc_URL = ''https://host/ep07.mp3'', enc_Length = ''10'', enc_Type = ''audio/mpeg''\<rparr>,
                                 \<lparr>enc_URL = ''https://mirror/ep07.ogg'', enc_Length = ''12'', enc_Type = ''audio/ogg''\<rparr>]\<rparr> # []))
          (newDownloader ''out'' ''feed'' ''cover'')))))"
proof -
  have h1: "matches_pattern (item_Title \<lparr>item_Title = ''Episode 07: Night Drive'',
              item_Enclosures = [\<lparr>enc_URL = ''https://host/ep07.mp3'', enc_Length = ''10'', enc_Type = ''audio/mpeg''\<rparr>,
                                 \<lparr>enc_URL = ''https://mirror/ep07.ogg'', enc_Length = ''12'', enc_Type = ''audio/ogg''\<rparr>]\<rparr>)"
    by (simp add: matches_pattern_example)
  have h2: "item_Enclosures \<lparr>item_Title = ''Episode 07: Night Drive'',
              item_Enclosures = [\<lparr>enc_URL = ''https://host/ep07.mp3'', enc_Length = ''10'', enc_Type = ''audio/mpeg''\<rparr>,
                                 \<lparr>enc_URL = ''https://mirror/ep07.ogg'', enc_Length = ''12'', enc_Type = ''audio/ogg''\<rparr>]\<rparr> =
        \<lparr>enc_URL = ''https://host/ep07.mp3'', enc_Length = ''10'', enc_Type = ''audio/mpeg''\<rparr> #
        [\<lparr>enc_URL = ''https://mirror/ep07.ogg'', enc_Length = ''12'', enc_Type = ''audio/ogg''\<rparr>]"
    by simp
  show ?thesis
    using first_enclosure_is_source[OF h1 h2, where xs = "[]" and ys = "[]"
          and d = "newDownloader ''out'' ''feed'' ''cover''"
          and d' = "newDownloader ''out'' ''feed'' ''cover'' :: Episode2 Downloader", THEN conjunct1]
      matches_pattern_example
    by (simp add: FindStringSubmatch_example)
qed

lemma FindStringSubmatch_example2:
  "FindStringSubmatch ''Episode 08: Dusk'' = [''Episode 08: Dusk'', ''08'', ''Dusk'']"
  by (simp add: FindStringSubmatch_def isSpace_def isDigit_def newline_def Let_def)

lemma matches_pattern_example2: "matches_pattern ''Episode 08: Dusk''"
  using FindStringSubmatch_matches[of "''Episode 08: Dusk''"]
  by (simp add: FindStringSubmatch_example2)

lemma num_val_examples: "num_val ''07'' = 7" "num_val ''08'' = 8"
  by (simp_all add: num_val_def digit_val_def)

theorem loadEpisodes_ascending_witness:
  "Episodes (newDownloader ''out'' ''feed'' ''cover'' :: Episode Downloader) = [] \<and>
   sorted_wrt (\<lambda>a b. num_val b < num_val a)
     (feed_numbers
        [\<lparr>item_Title = ''Episode 08: Dusk'',
           item_Enclosures = [\<lparr>enc_URL = ''https://host/ep08.mp3'', enc_Length = ''10'', enc_Type = ''audio/mpeg''\<rparr>]\<rparr>,
         \<lparr>item_Title = ''Episode 07: Night Drive'',
           item_Enclosures = [\<lparr>enc_URL = ''https://host/ep07.mp3'', enc_Length = ''10'', enc_Type = ''audio/mpeg''\<rparr>]\<rparr>]) \<and>
   map Number (Episodes (fst (snd (loadEpisodes
     (Inr [\<lparr>item_Title = ''Episode 08: Dusk'',
           item_Enclosures = [\<lparr>enc_URL = ''https://host/ep08.mp3'', enc_Length = ''10'', enc_Type = ''audio/mpeg''\<rparr>]\<rparr>,
         \<lparr>item_Title = ''Episode 07: Night Drive'',
           item_Enclosures = [\<lparr>enc_URL = ''https://host/ep07.mp3'', enc_Length = ''10'', enc_Type = ''audio/mpeg''\<rparr>]\<rparr>])
     (newDownloader ''out'' ''feed'' ''cover''))))) = [''07'', ''08'']"
proof -
  let ?items = "[\<lparr>item_Title = ''Episode 08: Dusk'',
           item_Enclosures = [\<lparr>enc_URL = ''https://host/ep08.mp3'', enc_Length = ''10'', enc_Type = ''audio/mpeg''\<rparr>]\<rparr>,
         \<lparr>item_Title = ''Episode 07: Night Drive'',
           item_Enclosures = [\<lparr>enc_URL = ''https://host/ep07.mp3'', enc_Length = ''10'', enc_Type = ''audio/mpeg''\<rparr>]\<rparr>]"
  have h1: "Episodes (newDownloader ''out'' ''feed'' ''cover'' :: Episode Downloader) = []"
    by (simp add: newDownloader_def)
  have fn: "feed_numbers ?items = [''08'', ''07'']"
    by (simp add: feed_numbers_def matches_pattern_example matches_pattern_example2
        FindStringSubmatch_example FindStringSubmatch_example2)
  have h2: "sorted_wrt (\<lambda>a b. num_val b < num_val a) (feed_numbers ?items)"
    unfolding fn by (simp add: num_val_examples)
  show ?thesis
    using h1 h2 loadEpisodes_ascending[OF h1 h2] by (simp add: fn)
qed

section \<open>Properties of the completion checks\<close>

lemma sequence_AddFrame_not_Nil [simp]: "sequence_AddFrame f gs \<noteq> []"
  by (cases gs) auto

lemma parse_pictures_Nil_iff:
  "foldl (\<lambda>fs p. sequence_AddFrame p fs) acc ps = [] \<longleftrightarrow> acc = [] \<and> ps = []"
  by (induction ps arbitrary: acc) auto

lemma Open_cases:
  "Open w p =
     (case files w p of
        None \<Rightarrow> Inl (Error ''no such file or directory'')
      | Some f \<Rightarrow>
          (case id3 f of
             NoTag \<Rightarrow>
               if 0 < length (raw w f) \<and> length (raw w f) < tagHeaderSize then
                 Inl (Wrap ''error by parsing tag header''
                        (Error ''size of tag header is less than expected''))
               else Inr emptyTag
           | BadTag err \<Rightarrow> Inl err
           | HasTag t \<Rightarrow>
               Inr (t\<lparr>pictures := foldl (\<lambda>fs p. sequence_AddFrame p fs) [] (pictures t)\<rparr>)))"
  by (simp add: Open_def)

lemma metadataComplete_iff:
  "fst (metadataComplete w p) \<longleftrightarrow> (\<exists>f. files w p = Some f \<and> has_album f \<and> cover_frames f \<noteq> [])"
  by (auto simp: metadataComplete_def Open_def has_album_def cover_frames_def stored_tag_def
      Album_def GetFrames_def emptyTag_def parse_pictures_Nil_iff Let_def
      split: option.splits container.splits)

lemma metadataComplete_err:
  "fst (metadataComplete w p) \<Longrightarrow> snd (metadataComplete w p) = None"
  by (auto simp: metadataComplete_def Let_def split: sum.splits if_splits)

lemma complete_last_iff:
  "complete_last w p \<longleftrightarrow> (\<exists>f. files w p = Some f \<and> has_album f \<and> cover_frames f \<noteq> [])"
  unfolding metadataComplete_iff[symmetric]
  by (auto simp: complete_last_def Stat_def metadataComplete_def Open_def split: option.splits)

lemma fileIsComplete_iff:
  "fileIsComplete w url p expectedSize \<longleftrightarrow>
     (\<exists>f. files w p = Some f \<and> has_album f \<and> cover_frames f \<noteq> [])"
proof -
  have "fileIsComplete w url p expectedSize \<longleftrightarrow> fst (metadataComplete w p)"
    using metadataComplete_err[of w p]
    by (auto simp: fileIsComplete_def split: prod.splits)
  then show ?thesis by (simp add: metadataComplete_iff)
qed

lemma fileComplete_iff:
  "fileComplete w url p \<longleftrightarrow>
      (\<exists>f resp. files w p = Some f \<and> remote w url = Inr resp \<and>
         int (length (raw w f)) = ContentLength resp)"
  by (auto simp: fileComplete_def Stat_def split: option.splits sum.splits)

text \<open>
  Claim C1, as amended. The checks that read the metadata (\<^verbatim>\<open>os.Stat\<close> followed by
  \<^verbatim>\<open>metadataComplete\<close> in the last revision, \<^verbatim>\<open>fileIsComplete\<close> in the second)
  judge a path complete exactly when the file exists, its album frame is
  \<^verbatim>\<open>Music For Programming\<close> and it holds at least one \<^verbatim>\<open>APIC\<close> frame. The check of
  the first revision, \<^verbatim>\<open>fileComplete\<close>, compares the size of the file with the length
  the server declares and does not read the metadata.
\<close>

theorem completion_check_reads_metadata:
  "(complete_last w p \<longleftrightarrow> (\<exists>f. files w p = Some f \<and> has_album f \<and> cover_frames f \<noteq> [])) \<and>
   (fileIsComplete w url p expectedSize \<longleftrightarrow>
      (\<exists>f. files w p = Some f \<and> has_album f \<and> cover_frames f \<noteq> [])) \<and>
   (fileComplete w url p \<longleftrightarrow>
      (\<exists>f resp. files w p = Some f \<and> remote w url = Inr resp \<and>
         int (length (raw w f)) = ContentLength resp))"
  using complete_last_iff[of w p] fileIsComplete_iff[of w url p expectedSize]
    fileComplete_iff[of w url p]
  by blast

theorem completion_check_reads_metadata_witness:
  "files world_tagged target_example = Some tagged \<and>
   has_album tagged \<and> cover_frames tagged \<noteq> [] \<and>
   complete_last world_tagged target_example \<and>
   fileIsComplete world_tagged ''https://host/ep07.mp3'' target_example 0"
proof -
  have f: "files world_tagged target_example = Some tagged"
    by (simp add: world_tagged_def target_example_def cover_example_def)
  have a: "has_album tagged" and c: "cover_frames tagged \<noteq> []"
    by (simp_all add: has_album_def cover_frames_def stored_tag_def tagged_def)
  show ?thesis
    using completion_check_reads_metadata[of world_tagged target_example
        "''https://host/ep07.mp3''" 0] f a c
    by simp
qed

text \<open>
  Claim C1 as stated fails for the first revision: \<^verbatim>\<open>fileComplete\<close> reports complete
  for a file of twelve bytes without any tag when the server declares twelve bytes.
\<close>

theorem fileComplete_ignores_metadata:
  "fileComplete world_untagged ''https://host/ep07.mp3'' target_example \<and>
   files world_untagged target_example = Some untagged \<and>
   \<not> has_album untagged \<and> cover_frames untagged = []"
  by (simp add: fileComplete_def Stat_def world_untagged_def server_def untagged_def
      has_album_def cover_frames_def stored_tag_def target_example_def cover_example_def)

section \<open>Properties of the tagger\<close>

lemma sequence_AddFrame_idem:
  "sequence_AddFrame f (sequence_AddFrame f gs) = sequence_AddFrame f gs"
  by (induction gs) auto










lemma Open_trace [simp]: "Open (w\<lparr>trace := t\<rparr>) p = Open w p"
  by (simp add: Open_def split: option.splits container.splits)

lemma ReadFile_trace [simp]: "ReadFile (w\<lparr>trace := t\<rparr>) p = ReadFile w p"
  by (simp add: ReadFile_def split: option.splits)



lemma Description_tagger_picture: "Description (tagger_picture cover) = ''Cover''"
  by (simp add: tagger_picture_def)

lemma UniqueIdentifier_tagger_picture:
  "UniqueIdentifier (tagger_picture cover) = ''Cover''"
  by (simp add: UniqueIdentifier_def Description_tagger_picture)


lemma example_paths_differ: "target_example \<noteq> cover_example"
  by (simp add: target_example_def cover_example_def)


lemma tagEpisode_step_NoTag:
  assumes "files w p = Some f" and "id3 f = NoTag" and "files w c = Some cf"
    and "denied w p = None" and "tagHeaderSize \<le> length (raw w f)"
  shows "tagEpisode p c w =
     (None, w\<lparr>trace := trace w @ [TagEpisode p c],
              files := (files w)(p \<mapsto> f\<lparr>id3 := HasTag
                 \<lparr>text_frames = [''TALB'' \<mapsto> ''Music For Programming''],
                  pictures = [tagger_picture (raw w cf)]\<rparr>\<rparr>)\<rparr>)"
  using assms
  by (simp add: tagEpisode_def Open_def ReadFile_def Save_def SetAlbum_def
      AddAttachedPicture_def tagger_picture_def Let_def emptyTag_def)








section \<open>Properties of the worker\<close>

lemma Join_example: "Join ''out'' ''07 - Night Drive.mp3'' = ''out/07 - Night Drive.mp3''"
  by (simp add: Join_def Clean_def)

lemma Join_cover_example: "Join ''out'' ''cover.jpg'' = ''out/cover.jpg''"
  by (simp add: Join_def Clean_def)

lemma trace_log [simp]: "trace (log l w) = trace w @ [Log l]"
  and files_log [simp]: "files (log l w) = files w"
  and remote_log [simp]: "remote (log l w) = remote w"
  and denied_log [simp]: "denied (log l w) = denied w"
  and raw_log [simp]: "raw (log l w) = raw w"
  by (simp_all add: log_def)

lemma Open_files: "files w' = files w \<Longrightarrow> raw w' = raw w \<Longrightarrow> Open w' p = Open w p"
  by (simp add: Open_def split: option.splits container.splits)

lemma Open_log [simp]: "Open (log l w) p = Open w p"
  by (simp add: Open_def split: option.splits container.splits)

lemma metadataComplete_log [simp]: "metadataComplete (log l w) p = metadataComplete w p"
  by (simp add: metadataComplete_def)

lemma tagEpisode_cases:
  "(\<exists>e. tagEpisode p c w = (Some e, w\<lparr>trace := trace w @ [TagEpisode p c]\<rparr>)) \<or>
   (\<exists>f t. files w p = Some f \<and>
      tagEpisode p c w = (None, w\<lparr>trace := trace w @ [TagEpisode p c],
                                  files := (files w)(p \<mapsto> f\<lparr>id3 := HasTag t\<rparr>)\<rparr>))"
proof (cases "Open w p")
  case (Inl e)
  then show ?thesis by (simp add: tagEpisode_def)
next
  case (Inr tag)
  then obtain f where f: "files w p = Some f"
    by (auto simp: Open_def split: option.splits)
  show ?thesis
  proof (cases "ReadFile w c")
    case (Inl e)
    then show ?thesis using Inr by (simp add: tagEpisode_def)
  next
    case cover: (Inr cover)
    show ?thesis
    proof (cases "denied w p")
      case None
      have "tagEpisode p c w = (None, w\<lparr>trace := trace w @ [TagEpisode p c],
          files := (files w)(p \<mapsto> f\<lparr>id3 := HasTag
             (AddAttachedPicture (SetAlbum tag ''Music For Programming'') (tagger_picture cover))\<rparr>)\<rparr>)"
        using None Inr cover f
        by (simp add: tagEpisode_def Save_def Let_def tagger_picture_def)
      then show ?thesis using f by blast
    next
      case (Some e)
      then show ?thesis using Inr cover f
        by (simp add: tagEpisode_def Save_def Let_def)
    qed
  qed
qed


lemma trace_tagEpisode: "trace (snd (tagEpisode p c w)) = trace w @ [TagEpisode p c]"
  using tagEpisode_cases[of p c w] by auto

lemma files_tagEpisode_other: "q \<noteq> p \<Longrightarrow> files (snd (tagEpisode p c w)) q = files w q"
  using tagEpisode_cases[of p c w] by auto

lemma files_tagEpisode_audio:
  "files w p = Some f \<Longrightarrow> \<exists>f'. files (snd (tagEpisode p c w)) p = Some f' \<and> audio f' = audio f"
  using tagEpisode_cases[of p c w] by auto

lemma tagEpisode_Open_error:
  "Open w p = Inl e \<Longrightarrow> tagEpisode p c w = (Some e, w\<lparr>trace := trace w @ [TagEpisode p c]\<rparr>)"
  by (simp add: tagEpisode_def)

lemma worker_existing:
  assumes "files w (Join (OutputDir d) (fileName ep)) = Some f"
    and "metadataComplete w (Join (OutputDir d) (fileName ep)) = (metaOk, err)"
    and "w1 = (case err of Some e \<Rightarrow> log (ErrReadingMetadata (fileName ep) e) w | None \<Rightarrow> w)"
    and "tagEpisode (Join (OutputDir d) (fileName ep)) (Join (OutputDir d) ''cover.jpg'')
           (log (MetadataIncomplete (fileName ep)) w1) = (err', w3)"
  shows "worker d ep w =
     (if metaOk then log (AlreadyComplete (fileName ep)) w1
      else (case err' of
              Some e \<Rightarrow> log (ErrUpdatingMetadata (fileName ep) e) w3
            | None \<Rightarrow> log (MetadataUpdated (fileName ep)) w3))"
  unfolding worker_def Let_def Stat_def assms(1) option.case sum.case assms(2) prod.case
    assms(3)[symmetric] assms(4) ..

lemma worker_complete:
  assumes "complete_last w (Join (OutputDir d) (fileName ep))"
  shows "worker d ep w = log (AlreadyComplete (fileName ep)) w"
proof -
  let ?t = "Join (OutputDir d) (fileName ep)"
  obtain f where f: "files w ?t = Some f"
    using assms by (auto simp: complete_last_def Stat_def split: option.splits)
  have ok: "fst (metadataComplete w ?t)"
    using assms f by (simp add: complete_last_def Stat_def)
  then have m: "metadataComplete w ?t = (True, None)"
    using metadataComplete_err[of w ?t] by (simp add: prod_eq_iff)
  show ?thesis
    unfolding worker_def Let_def Stat_def f option.case sum.case m prod.case by simp
qed

lemma filter_is_call_Log [simp]: "filter is_call (map Log xs) = []"
  by (induction xs) simp_all

lemma trace_downloadFile:
  "trace (snd (downloadFile url dest w)) = trace w @ [DownloadFile url dest]"
  by (simp add: downloadFile_def Let_def split: sum.splits option.splits)

lemma calls_since_append:
  "trace w' = trace w @ evs \<Longrightarrow> calls_since w w' = filter is_call evs"
  by (simp add: calls_since_def)

lemma refetch_calls:
  assumes "downloadFile url t (log (Downloading n) w) = (err, w2)"
    and "tagEpisode t c w2 = (err', w3)"
  shows "calls_since w
           (case err of
              Some e \<Rightarrow> log (ErrDownloading n e) w2
            | None \<Rightarrow>
                (case err' of
                   Some e \<Rightarrow> log (ErrTagging n e) w3
                 | None \<Rightarrow> log (Processed n) w3)) =
         DownloadFile url t # (if err = None then [TagEpisode t c] else [])"
proof -
  have t2: "trace w2 = trace w @ [Log (Downloading n), DownloadFile url t]"
    using trace_downloadFile[of url t "log (Downloading n) w"] assms(1) by simp
  have t3: "trace w3 = trace w @ [Log (Downloading n), DownloadFile url t, TagEpisode t c]"
    using trace_tagEpisode[of t c w2] assms(2) t2 by simp
  show ?thesis
  proof (cases err)
    case (Some e)
    have "trace (log (ErrDownloading n e) w2) =
        trace w @ [Log (Downloading n), DownloadFile url t, Log (ErrDownloading n e)]"
      by (simp add: t2)
    then show ?thesis using Some by (simp add: calls_since_append)
  next
    case None
    have "\<exists>l. trace (case err' of Some e \<Rightarrow> log (ErrTagging n e) w3 | None \<Rightarrow> log (Processed n) w3) =
        trace w @ [Log (Downloading n), DownloadFile url t, TagEpisode t c, Log l]"
      by (cases err') (simp_all add: t3)
    then obtain l where "trace (case err' of Some e \<Rightarrow> log (ErrTagging n e) w3 | None \<Rightarrow> log (Processed n) w3) =
        trace w @ [Log (Downloading n), DownloadFile url t, TagEpisode t c, Log l]" by blast
    then show ?thesis using None by (simp add: calls_since_append)
  qed
qed

lemma worker2_calls:
  "calls_since w (worker2 d ep w) =
     (if fileIsComplete w (URL ep) (Join (OutputDir d) (fileName ep)) (ExpectedSize ep) then []
      else DownloadFile (URL ep) (Join (OutputDir d) (fileName ep)) #
           (if fst (downloadFile (URL ep) (Join (OutputDir d) (fileName ep))
                      (log (Downloading (fileName ep)) w)) = None
            then [TagEpisode (Join (OutputDir d) (fileName ep)) (Join (OutputDir d) ''cover.jpg'')]
            else []))"
proof -
  let ?t = "Join (OutputDir d) (fileName ep)"
  let ?c = "Join (OutputDir d) ''cover.jpg''"
  let ?n = "fileName ep"
  show ?thesis
  proof (cases "fileIsComplete w (URL ep) ?t (ExpectedSize ep)")
    case True
    then have "worker2 d ep w = log (AlreadyComplete ?n) w"
      by (simp add: worker2_def Let_def)
    then show ?thesis using True by (simp add: calls_since_def)
  next
    case False
    obtain err w2 where dl: "downloadFile (URL ep) ?t (log (Downloading ?n) w) = (err, w2)"
      by (cases "downloadFile (URL ep) ?t (log (Downloading ?n) w)")
    obtain err' w3 where tg: "tagEpisode ?t ?c w2 = (err', w3)"
      by (cases "tagEpisode ?t ?c w2")
    have "worker2 d ep w =
        (case err of
              Some e \<Rightarrow> log (ErrDownloading ?n e) w2
            | None \<Rightarrow>
                (case err' of
                   Some e \<Rightarrow> log (ErrTagging ?n e) w3
                 | None \<Rightarrow> log (Processed ?n) w3))"
    proof -
      have F: "fileIsComplete w (URL ep) ?t (ExpectedSize ep) = False" using False by simp
      show ?thesis
        unfolding worker2_def Let_def F if_False dl prod.case tg ..
    qed
    then show ?thesis
      using refetch_calls[OF dl tg] False dl by simp
  qed
qed

lemma worker1_calls:
  "calls_since w (worker1 d ep w) =
     (if fileComplete w (URL ep) (Join (OutputDir d) (fileName ep)) then []
      else DownloadFile (URL ep) (Join (OutputDir d) (fileName ep)) #
           (if fst (downloadFile (URL ep) (Join (OutputDir d) (fileName ep))
                      (log (Downloading (fileName ep)) w)) = None
            then [TagEpisode (Join (OutputDir d) (fileName ep)) (Join (OutputDir d) ''cover.jpg'')]
            else []))"
proof -
  let ?t = "Join (OutputDir d) (fileName ep)"
  let ?c = "Join (OutputDir d) ''cover.jpg''"
  let ?n = "fileName ep"
  show ?thesis
  proof (cases "fileComplete w (URL ep) ?t")
    case True
    then have "worker1 d ep w = log (AlreadyDownloaded ?n) w"
      by (simp add: worker1_def Let_def)
    then show ?thesis using True by (simp add: calls_since_def)
  next
    case False
    obtain err w2 where dl: "downloadFile (URL ep) ?t (log (Downloading ?n) w) = (err, w2)"
      by (cases "downloadFile (URL ep) ?t (log (Downloading ?n) w)")
    obtain err' w3 where tg: "tagEpisode ?t ?c w2 = (err', w3)"
      by (cases "tagEpisode ?t ?c w2")
    have "worker1 d ep w =
        (case err of
              Some e \<Rightarrow> log (ErrDownloading ?n e) w2
            | None \<Rightarrow>
                (case err' of
                   Some e \<Rightarrow> log (ErrTagging ?n e) w3
                 | None \<Rightarrow> log (Processed ?n) w3))"
    proof -
      have F: "fileComplete w (URL ep) ?t = False" using False by simp
      show ?thesis
        unfolding worker1_def Let_def F if_False dl prod.case tg ..
    qed
    then show ?thesis
      using refetch_calls[OF dl tg] False dl by simp
  qed
qed

text \<open>
  Claim C3, as amended. In the last revision, for an episode whose target file exists
  and lacks the album frame or a picture frame, the only call of the worker is one call
  of \<^verbatim>\<open>tagEpisode\<close> (no \<^verbatim>\<open>downloadFile\<close>), the bytes after the tag of the target
  file stay the same and no other file changes. The workers of the two revisions in
  \<^verbatim>\<open>main.go\<close> have no path that tags without fetching: they make no call when their
  check reports complete, and otherwise call \<^verbatim>\<open>downloadFile\<close> first and \<^verbatim>\<open>tagEpisode\<close>
  only after a download that succeeded; on that same file the second revision
  therefore downloads again.
\<close>

theorem retag_without_fetch:
  assumes "files w (Join (OutputDir d) (fileName ep)) = Some f"
    and "\<not> has_album f \<or> cover_frames f = []"
  shows "calls_since w (worker d ep w) =
           [TagEpisode (Join (OutputDir d) (fileName ep)) (Join (OutputDir d) ''cover.jpg'')] \<and>
         (\<exists>f'. files (worker d ep w) (Join (OutputDir d) (fileName ep)) = Some f' \<and>
               audio f' = audio f) \<and>
         (\<forall>q. q \<noteq> Join (OutputDir d) (fileName ep) \<longrightarrow> files (worker d ep w) q = files w q) \<and>
         calls_since w (worker1 d ep w) =
           (if fileComplete w (URL ep) (Join (OutputDir d) (fileName ep)) then []
            else DownloadFile (URL ep) (Join (OutputDir d) (fileName ep)) #
                 (if fst (downloadFile (URL ep) (Join (OutputDir d) (fileName ep))
                            (log (Downloading (fileName ep)) w)) = None
                  then [TagEpisode (Join (OutputDir d) (fileName ep)) (Join (OutputDir d) ''cover.jpg'')]
                  else [])) \<and>
         (\<forall>ep2. calls_since w (worker2 d ep2 w) =
           (if fileIsComplete w (URL ep2) (Join (OutputDir d) (fileName ep2)) (ExpectedSize ep2) then []
            else DownloadFile (URL ep2) (Join (OutputDir d) (fileName ep2)) #
                 (if fst (downloadFile (URL ep2) (Join (OutputDir d) (fileName ep2))
                            (log (Downloading (fileName ep2)) w)) = None
                  then [TagEpisode (Join (OutputDir d) (fileName ep2)) (Join (OutputDir d) ''cover.jpg'')]
                  else []))) \<and>
         (\<forall>ep2. fileName ep2 = fileName ep \<longrightarrow>
            (\<exists>rest. calls_since w (worker2 d ep2 w) =
               DownloadFile (URL ep2) (Join (OutputDir d) (fileName ep)) # rest))"
proof -
  let ?t = "Join (OutputDir d) (fileName ep)"
  let ?c = "Join (OutputDir d) ''cover.jpg''"
  let ?n = "fileName ep"
  obtain metaOk err where m: "metadataComplete w ?t = (metaOk, err)"
    by (cases "metadataComplete w ?t")
  have inc: "\<not> metaOk"
    using assms m metadataComplete_iff[of w ?t] by auto
  define w1 where "w1 = (case err of Some e \<Rightarrow> log (ErrReadingMetadata ?n e) w | None \<Rightarrow> w)"
  obtain err' w3 where r: "tagEpisode ?t ?c (log (MetadataIncomplete ?n) w1) = (err', w3)"
    by (cases "tagEpisode ?t ?c (log (MetadataIncomplete ?n) w1)")
  have W: "worker d ep w = (case err' of
              Some e \<Rightarrow> log (ErrUpdatingMetadata ?n e) w3
            | None \<Rightarrow> log (MetadataUpdated ?n) w3)"
    using worker_existing[OF assms(1) m w1_def r] inc by simp
  have f1: "files w1 = files w"
    by (simp add: w1_def split: option.splits)
  obtain ls where ls: "trace w1 = trace w @ map Log ls"
  proof (cases err)
    case None
    then have "trace w1 = trace w @ map Log []" by (simp add: w1_def)
    then show ?thesis using that by blast
  next
    case (Some e)
    then have "trace w1 = trace w @ map Log [ErrReadingMetadata ?n e]" by (simp add: w1_def)
    then show ?thesis using that by blast
  qed
  have w3: "w3 = snd (tagEpisode ?t ?c (log (MetadataIncomplete ?n) w1))"
    using r by simp
  have tr: "trace w3 = trace w @ map Log (ls @ [MetadataIncomplete ?n]) @ [TagEpisode ?t ?c]"
    unfolding w3 by (simp add: trace_tagEpisode ls)
  obtain l where trw: "trace (worker d ep w) =
      trace w @ map Log (ls @ [MetadataIncomplete ?n]) @ [TagEpisode ?t ?c] @ [Log l]"
    unfolding W by (cases err') (simp_all add: tr)
  have calls: "calls_since w (worker d ep w) = [TagEpisode ?t ?c]"
    unfolding calls_since_def trw by simp
  have fw: "files (worker d ep w) = files w3"
    unfolding W by (cases err') simp_all
  have f2: "files (log (MetadataIncomplete ?n) w1) = files w" by (simp add: f1)
  have au: "\<exists>f'. files (worker d ep w) ?t = Some f' \<and> audio f' = audio f"
    unfolding fw w3
    using files_tagEpisode_audio[of "log (MetadataIncomplete ?n) w1" ?t f ?c] assms(1) f2 by simp
  have oth: "\<forall>q. q \<noteq> ?t \<longrightarrow> files (worker d ep w) q = files w q"
    unfolding fw w3
    using files_tagEpisode_other[of _ ?t ?c "log (MetadataIncomplete ?n) w1"] f2 by simp
  have w1c: "calls_since w (worker1 d ep w) =
           (if fileComplete w (URL ep) ?t then []
            else DownloadFile (URL ep) ?t #
                 (if fst (downloadFile (URL ep) ?t (log (Downloading ?n) w)) = None
                  then [TagEpisode ?t ?c] else []))"
    by (rule worker1_calls)
  have w2c: "\<forall>ep2. calls_since w (worker2 d ep2 w) =
           (if fileIsComplete w (URL ep2) (Join (OutputDir d) (fileName ep2)) (ExpectedSize ep2) then []
            else DownloadFile (URL ep2) (Join (OutputDir d) (fileName ep2)) #
                 (if fst (downloadFile (URL ep2) (Join (OutputDir d) (fileName ep2))
                            (log (Downloading (fileName ep2)) w)) = None
                  then [TagEpisode (Join (OutputDir d) (fileName ep2)) ?c]
                  else []))"
    using worker2_calls by blast
  have again: "\<forall>ep2. fileName ep2 = fileName ep \<longrightarrow>
            (\<exists>rest. calls_since w (worker2 d ep2 w) = DownloadFile (URL ep2) ?t # rest)"
  proof (intro allI impI)
    fix ep2 :: Episode2
    assume n: "fileName ep2 = fileName ep"
    have "\<not> fileIsComplete w (URL ep2) ?t (ExpectedSize ep2)"
      using assms by (auto simp: fileIsComplete_iff)
    then show "\<exists>rest. calls_since w (worker2 d ep2 w) = DownloadFile (URL ep2) ?t # rest"
      using worker2_calls[of w d ep2] n by simp
  qed
  show ?thesis
    using calls au oth w1c w2c again by (intro conjI)
qed

lemma fileName_episode07: "fileName episode07 = ''07 - Night Drive.mp3''"
  by (simp add: fileName_def episode07_def)

lemma fileName_episode07_sized: "fileName episode07_sized = ''07 - Night Drive.mp3''"
  by (simp add: fileName_def episode07_sized_def)

lemma target_example_Join: "Join ''out'' ''07 - Night Drive.mp3'' = target_example"
  by (simp add: Join_example target_example_def)

lemma cover_example_Join: "Join ''out'' ''cover.jpg'' = cover_example"
  by (simp add: Join_cover_example cover_example_def)

lemma untagged_incomplete: "\<not> has_album untagged"
  by (simp add: has_album_def stored_tag_def untagged_def)

theorem retag_without_fetch_witness:
  "files world_untagged (Join ''out'' (fileName episode07)) = Some untagged \<and>
   \<not> has_album untagged \<and>
   calls_since world_untagged
     (worker (newDownloader ''out'' ''feed'' ''cover'' :: Episode Downloader) episode07 world_untagged) =
     [TagEpisode target_example cover_example]"
proof -
  let ?d = "newDownloader ''out'' ''feed'' ''cover'' :: Episode Downloader"
  have out: "OutputDir ?d = ''out''" by (simp add: newDownloader_def)
  have h1: "files world_untagged (Join (OutputDir ?d) (fileName episode07)) = Some untagged"
    unfolding out fileName_episode07 target_example_Join
    using example_paths_differ by (simp add: world_untagged_def)
  have h2: "\<not> has_album untagged \<or> cover_frames untagged = []"
    using untagged_incomplete by simp
  show ?thesis
    using retag_without_fetch[OF h1 h2, THEN conjunct1] h1 untagged_incomplete
    unfolding out fileName_episode07 target_example_Join cover_example_Join
    by simp
qed

text \<open>
  Claim C3 as stated fails for the second revision of \<^verbatim>\<open>main.go\<close>: its worker has no
  path that tags without fetching, and downloads the existing untagged file again.
\<close>

theorem second_revision_fetches_again:
  "files world_untagged target_example = Some untagged \<and>
   \<not> has_album untagged \<and>
   calls_since world_untagged
     (worker2 (newDownloader ''out'' ''feed'' ''cover'' :: Episode2 Downloader) episode07_sized
        world_untagged) =
     [DownloadFile ''https://host/ep07.mp3'' target_example,
      TagEpisode target_example cover_example]"
proof -
  let ?d = "newDownloader ''out'' ''feed'' ''cover'' :: Episode2 Downloader"
  let ?u = "''https://host/ep07.mp3''"
  let ?n = "''07 - Night Drive.mp3''"
  have out: "OutputDir ?d = ''out''" by (simp add: newDownloader_def)
  have url: "URL episode07_sized = ?u" by (simp add: episode07_sized_def)
  have f: "files world_untagged target_example = Some untagged"
    using example_paths_differ by (simp add: world_untagged_def)
  have inc: "fileIsComplete world_untagged ?u target_example (ExpectedSize episode07_sized) = False"
    using f untagged_incomplete
    by (simp add: fileIsComplete_iff)
  let ?w1 = "log (Downloading ?n) world_untagged"
  have dl: "downloadFile ?u target_example ?w1 =
      (None, ?w1\<lparr>trace := trace ?w1 @ [DownloadFile ?u target_example],
                 files := (files ?w1)(target_example \<mapsto> untagged)\<rparr>)"
    by (simp add: downloadFile_def Let_def world_untagged_def server_def log_def)
  let ?w2 = "?w1\<lparr>trace := trace ?w1 @ [DownloadFile ?u target_example],
                 files := (files ?w1)(target_example \<mapsto> untagged)\<rparr>"
  have tg: "tagEpisode target_example cover_example ?w2 =
      (None, ?w2\<lparr>trace := trace ?w2 @ [TagEpisode target_example cover_example],
              files := (files ?w2)(target_example \<mapsto> untagged\<lparr>id3 := HasTag
                 \<lparr>text_frames = [''TALB'' \<mapsto> ''Music For Programming''],
                  pictures = [tagger_picture (raw ?w2 jpeg)]\<rparr>\<rparr>)\<rparr>)"
    using example_paths_differ
    by (intro tagEpisode_step_NoTag)
       (simp_all add: world_untagged_def untagged_def log_def tagHeaderSize_def)
  have "worker2 ?d episode07_sized world_untagged =
      log (Processed ?n) (snd (tagEpisode target_example cover_example ?w2))"
    unfolding worker2_def Let_def out fileName_episode07_sized target_example_Join
      cover_example_Join url inc if_False dl prod.case option.case tg snd_conv ..
  then have "trace (worker2 ?d episode07_sized world_untagged) =
      [Log (Downloading ?n), DownloadFile ?u target_example,
       TagEpisode target_example cover_example, Log (Processed ?n)]"
    unfolding tg snd_conv by (simp add: world_untagged_def log_def)
  then have "calls_since world_untagged (worker2 ?d episode07_sized world_untagged) =
     [DownloadFile ?u target_example, TagEpisode target_example cover_example]"
    by (simp add: calls_since_def world_untagged_def)
  then show ?thesis using f untagged_incomplete by simp
qed

lemma metadataComplete_error:
  "snd (metadataComplete w p) = Some e \<longleftrightarrow> Open w p = Inl e"
  by (auto simp: metadataComplete_def Let_def split: sum.splits)

lemma metadataComplete_error_False:
  "Open w p = Inl e \<Longrightarrow> metadataComplete w p = (False, Some e)"
  by (simp add: metadataComplete_def)

text \<open>
  Claim C10. When the target file exists and \<^verbatim>\<open>metadataComplete\<close> returns an error,
  the worker logs the error, announces the update, calls \<^verbatim>\<open>tagEpisode\<close> and logs its
  outcome; it never calls \<^verbatim>\<open>downloadFile\<close> and the episode is not skipped.
\<close>

theorem unreadable_metadata_retags:
  assumes "Stat w (Join (OutputDir d) (fileName ep)) = Inr info"
    and "snd (metadataComplete w (Join (OutputDir d) (fileName ep))) = Some e"
  shows "trace (worker d ep w) =
           trace w @
           [Log (ErrReadingMetadata (fileName ep) e),
            Log (MetadataIncomplete (fileName ep)),
            TagEpisode (Join (OutputDir d) (fileName ep)) (Join (OutputDir d) ''cover.jpg''),
            Log (ErrUpdatingMetadata (fileName ep) e)] \<and>
         calls_since w (worker d ep w) =
           [TagEpisode (Join (OutputDir d) (fileName ep)) (Join (OutputDir d) ''cover.jpg'')] \<and>
         files (worker d ep w) = files w"
proof -
  let ?t = "Join (OutputDir d) (fileName ep)"
  let ?c = "Join (OutputDir d) ''cover.jpg''"
  let ?n = "fileName ep"
  obtain f where f: "files w ?t = Some f"
    using assms(1) by (auto simp: Stat_def split: option.splits)
  have op: "Open w ?t = Inl e"
    using assms(2) by (simp add: metadataComplete_error)
  have m: "metadataComplete w ?t = (False, Some e)"
    using op by (rule metadataComplete_error_False)
  define w1 where "w1 = (case Some e of Some e \<Rightarrow> log (ErrReadingMetadata ?n e) w | None \<Rightarrow> w)"
  let ?w2 = "log (MetadataIncomplete ?n) w1"
  have op2: "Open ?w2 ?t = Inl e"
    using op by (simp add: w1_def)
  have r: "tagEpisode ?t ?c ?w2 = (Some e, ?w2\<lparr>trace := trace ?w2 @ [TagEpisode ?t ?c]\<rparr>)"
    using op2 by (rule tagEpisode_Open_error)
  have W: "worker d ep w =
      log (ErrUpdatingMetadata ?n e) (?w2\<lparr>trace := trace ?w2 @ [TagEpisode ?t ?c]\<rparr>)"
    using worker_existing[OF f m w1_def r] by simp
  have tr: "trace (worker d ep w) =
           trace w @ [Log (ErrReadingMetadata ?n e), Log (MetadataIncomplete ?n),
                      TagEpisode ?t ?c, Log (ErrUpdatingMetadata ?n e)]"
    unfolding W by (simp add: w1_def)
  have fs: "files (worker d ep w) = files w"
    unfolding W by (simp add: w1_def)
  have calls: "calls_since w (worker d ep w) = [TagEpisode ?t ?c]"
    unfolding calls_since_def tr by simp
  show ?thesis using tr calls fs by simp
qed

theorem unreadable_metadata_retags_witness:
  "Stat world_corrupt (Join ''out'' (fileName episode07)) = Inr 3 \<and>
   snd (metadataComplete world_corrupt (Join ''out'' (fileName episode07))) =
     Some (Error ''unsupported version of ID3 tag'') \<and>
   trace (worker (newDownloader ''out'' ''feed'' ''cover'' :: Episode Downloader) episode07 world_corrupt) =
     [Log (ErrReadingMetadata ''07 - Night Drive.mp3'' (Error ''unsupported version of ID3 tag'')),
      Log (MetadataIncomplete ''07 - Night Drive.mp3''),
      TagEpisode target_example cover_example,
      Log (ErrUpdatingMetadata ''07 - Night Drive.mp3'' (Error ''unsupported version of ID3 tag''))]"
proof -
  let ?d = "newDownloader ''out'' ''feed'' ''cover'' :: Episode Downloader"
  let ?e = "Error ''unsupported version of ID3 tag''"
  have out: "OutputDir ?d = ''out''" by (simp add: newDownloader_def)
  have f: "files world_corrupt target_example = Some corrupt"
    using example_paths_differ by (simp add: world_corrupt_def)
  have h1: "Stat world_corrupt (Join (OutputDir ?d) (fileName episode07)) = Inr 3"
    unfolding out fileName_episode07 target_example_Join
    by (simp add: Stat_def f) (simp add: world_corrupt_def corrupt_def)
  have h2: "snd (metadataComplete world_corrupt (Join (OutputDir ?d) (fileName episode07))) = Some ?e"
    unfolding out fileName_episode07 target_example_Join
    by (simp add: metadataComplete_def Open_def f corrupt_def)
  have t0: "trace world_corrupt = []" by (simp add: world_corrupt_def)
  show ?thesis
    using unreadable_metadata_retags[OF h1 h2] h1 h2
    unfolding out fileName_episode07 target_example_Join cover_example_Join t0
    by simp
qed

section \<open>Properties of the goroutines\<close>

lemma step_slots_inv: "step d s s' \<Longrightarrow> slots_inv s \<Longrightarrow> slots_inv s'"
  by (induction rule: step.induct) (auto simp: slots_inv_def holding_def split: pc.splits)

lemma step_wg_inv: "step d s s' \<Longrightarrow> wg_inv s \<Longrightarrow> wg_inv s'"
  by (induction rule: step.induct) (auto simp: wg_inv_def split: pc.splits)

lemma init_invs: "slots_inv (init d w)" "wg_inv (init d w)"
  by (simp_all add: slots_inv_def wg_inv_def init_def holding_def)

lemma reachable_invs:
  assumes "reachable d w s"
  shows "slots_inv s \<and> wg_inv s"
  using assms unfolding reachable_def
  by (induction rule: rtranclp_induct) (auto simp: init_invs step_slots_inv step_wg_inv)

lemma in_body_le_holding: "length (in_body s) \<le> length (holding s)"
proof -
  have "in_body s = filter (\<lambda>g. snd g = Started) (holding s)"
    by (auto simp: in_body_def holding_def intro: filter_cong)
  then show ?thesis by simp
qed

lemma blocked_step:
  assumes "step d s s'" and "pc s = Sending ep" and "sem s = 3"
  shows "pc s' = Sending ep \<and> length (goroutines s') = length (goroutines s)"
  using assms by (induction rule: step.induct) auto

text \<open>
  Claim C4. In every state that a run of \<^verbatim>\<open>downloadAndTagEpisodes\<close> can reach, at
  most 3 goroutines are inside their body (checking, fetching or tagging) and at most 3
  hold a slot of the semaphore. While the loop is at its send and all 3 slots are held,
  no step moves the loop or starts a goroutine; as soon as fewer than 3 are held, the
  send is enabled.
\<close>

theorem at_most_three_active:
  assumes "reachable d w s"
  shows "length (in_body s) \<le> 3 \<and> length (holding s) \<le> 3 \<and>
         (\<forall>ep. pc s = Sending ep \<and> length (holding s) = 3 \<longrightarrow>
            (\<forall>s'. step d s s' \<longrightarrow>
               pc s' = Sending ep \<and> length (goroutines s') = length (goroutines s))) \<and>
         (\<forall>ep. pc s = Sending ep \<and> length (holding s) < 3 \<longrightarrow>
            step d s (s\<lparr>pc := Spawning ep, sem := sem s + 1\<rparr>))"
proof -
  have inv: "slots_inv s" using reachable_invs[OF assms] by simp
  have h: "length (holding s) \<le> 3"
    using inv by (simp add: slots_inv_def)
  have b: "length (in_body s) \<le> 3"
    using h in_body_le_holding[of s] by simp
  have sending: "sem s = length (holding s)" if "pc s = Sending ep" for ep
    using inv that by (simp add: slots_inv_def)
  have blocked: "\<forall>ep. pc s = Sending ep \<and> length (holding s) = 3 \<longrightarrow>
            (\<forall>s'. step d s s' \<longrightarrow>
               pc s' = Sending ep \<and> length (goroutines s') = length (goroutines s))"
  proof (intro allI impI)
    fix ep s'
    assume a: "pc s = Sending ep \<and> length (holding s) = 3" and st: "step d s s'"
    then have "sem s = 3" using sending[of ep] by simp
    then show "pc s' = Sending ep \<and> length (goroutines s') = length (goroutines s)"
      using blocked_step[OF st] a by simp
  qed
  have free: "\<forall>ep. pc s = Sending ep \<and> length (holding s) < 3 \<longrightarrow>
            step d s (s\<lparr>pc := Spawning ep, sem := sem s + 1\<rparr>)"
  proof (intro allI impI)
    fix ep
    assume a: "pc s = Sending ep \<and> length (holding s) < 3"
    then have "sem s < 3" using sending[of ep] by simp
    then show "step d s (s\<lparr>pc := Spawning ep, sem := sem s + 1\<rparr>)"
      using a by (intro step.loop_send) simp_all
  qed
  show ?thesis using b h blocked free by blast
qed

lemma dispatch_one:
  assumes "pc s = Loop" and "pending s = ep # rest" and "sem s < 3"
  shows "(step d)\<^sup>*\<^sup>* s \<lparr>pc = Loop, pending = rest, sem = sem s + 1, wg = wg s + 1,
            goroutines = goroutines s @ [(ep, Started)], wld = wld s\<rparr>"
proof -
  let ?s1 = "s\<lparr>pc := Sending ep, pending := rest, wg := wg s + 1\<rparr>"
  let ?s2 = "?s1\<lparr>pc := Spawning ep, sem := sem ?s1 + 1\<rparr>"
  let ?s3 = "?s2\<lparr>pc := Loop, goroutines := goroutines ?s2 @ [(ep, Started)]\<rparr>"
  have 1: "step d s ?s1" using assms by (intro step.loop_add) simp_all
  have 2: "step d ?s1 ?s2" using assms by (intro step.loop_send) simp_all
  have 3: "step d ?s2 ?s3" by (intro step.loop_go) simp
  have "(step d)\<^sup>*\<^sup>* s ?s1" using 1 by (rule r_into_rtranclp)
  then have "(step d)\<^sup>*\<^sup>* s ?s2" using 2 by (rule rtranclp.rtrancl_into_rtrancl)
  then have "(step d)\<^sup>*\<^sup>* s ?s3" using 3 by (rule rtranclp.rtrancl_into_rtrancl)
  moreover have "?s3 = \<lparr>pc = Loop, pending = rest, sem = sem s + 1, wg = wg s + 1,
            goroutines = goroutines s @ [(ep, Started)], wld = wld s\<rparr>"
    by (cases s) simp
  ultimately show ?thesis by (simp only:)
qed

lemma blocked_pool_reachable: "reachable four_episodes w (blocked_pool w)"
proof -
  let ?s0 = "init four_episodes w"
  let ?s1 = "\<lparr>pc = Loop, pending = [episode ''02'', episode ''03'', episode ''04''], sem = Suc 0, wg = Suc 0,
      goroutines = [(episode ''01'', Started)], wld = w\<rparr>"
  let ?s2 = "\<lparr>pc = Loop, pending = [episode ''03'', episode ''04''], sem = Suc (Suc 0), wg = Suc (Suc 0),
      goroutines = [(episode ''01'', Started), (episode ''02'', Started)], wld = w\<rparr>"
  let ?s3 = "\<lparr>pc = Loop, pending = [episode ''04''], sem = Suc (Suc (Suc 0)), wg = Suc (Suc (Suc 0)),
      goroutines = [(episode ''01'', Started), (episode ''02'', Started), (episode ''03'', Started)],
      wld = w\<rparr>"
  have 1: "(step four_episodes)\<^sup>*\<^sup>* ?s0 ?s1"
    using dispatch_one[of ?s0 "episode ''01''" "[episode ''02'', episode ''03'', episode ''04'']" four_episodes]
    by (simp add: init_def four_episodes_def)
  have 2: "(step four_episodes)\<^sup>*\<^sup>* ?s1 ?s2"
    using dispatch_one[of ?s1 "episode ''02''" "[episode ''03'', episode ''04'']" four_episodes]
    by simp
  have 3: "(step four_episodes)\<^sup>*\<^sup>* ?s2 ?s3"
    using dispatch_one[of ?s2 "episode ''03''" "[episode ''04'']" four_episodes]
    by simp
  have 4: "step four_episodes ?s3 (blocked_pool w)"
    using step.loop_add[of ?s3 "episode ''04''" "[]" four_episodes]
    by (simp add: blocked_pool_def eval_nat_numeral)
  have "(step four_episodes)\<^sup>*\<^sup>* ?s0 ?s2" using 1 2 by (rule rtranclp_trans)
  then have "(step four_episodes)\<^sup>*\<^sup>* ?s0 ?s3" using 3 by (rule rtranclp_trans)
  then have "(step four_episodes)\<^sup>*\<^sup>* ?s0 (blocked_pool w)"
    using 4 by (rule rtranclp.rtrancl_into_rtrancl)
  then show ?thesis
    unfolding reachable_def .
qed

theorem at_most_three_active_witness:
  "reachable four_episodes world_untagged (blocked_pool world_untagged) \<and>
   pc (blocked_pool world_untagged) = Sending (episode ''04'') \<and>
   length (holding (blocked_pool world_untagged)) = 3 \<and>
   length (in_body (blocked_pool world_untagged)) \<le> 3"
  using at_most_three_active[OF blocked_pool_reachable[of world_untagged]]
    blocked_pool_reachable[of world_untagged]
  by (simp add: blocked_pool_def holding_def)

lemma step_decreases: "step d s s' \<Longrightarrow> steps_left s' < steps_left s"
  by (induction rule: step.induct) (auto simp: steps_left_def)

lemma not_Gone_cases:
  assumes "filter (\<lambda>g. snd g \<noteq> Gone) gs \<noteq> []"
  shows "\<exists>xs ep ph ys. gs = xs @ (ep, ph) # ys \<and> ph \<noteq> Gone"
proof -
  from assms obtain g where g: "g \<in> set gs" "snd g \<noteq> Gone"
    by (auto simp: filter_empty_conv)
  then obtain xs ys where "gs = xs @ g # ys" by (meson split_list)
  then show ?thesis using g by (cases g) auto
qed

lemma holding_cases:
  assumes "filter (\<lambda>g. snd g = Started \<or> snd g = BodyDone) gs \<noteq> []"
  shows "\<exists>xs ep ph ys. gs = xs @ (ep, ph) # ys \<and> (ph = Started \<or> ph = BodyDone)"
proof -
  from assms obtain g where g: "g \<in> set gs" "snd g = Started \<or> snd g = BodyDone"
    by (auto simp: filter_empty_conv)
  then obtain xs ys where "gs = xs @ g # ys" by (meson split_list)
  then show ?thesis using g by (cases g) auto
qed

lemma goroutine_can_step:
  assumes "goroutines s = xs @ (ep, ph) # ys" and "ph \<noteq> Gone"
    and "ph = BodyDone \<longrightarrow> 0 < sem s" and "ph = Released \<longrightarrow> 0 < wg s"
  shows "\<exists>s'. step d s s'"
proof (cases ph)
  case Started
  then show ?thesis using assms(1) step.run_body by blast
next
  case BodyDone
  then show ?thesis using assms step.release_slot by blast
next
  case Released
  then show ?thesis using assms step.wg_done by blast
next
  case Gone
  then show ?thesis using assms(2) by simp
qed

lemma holding_sem_pos:
  assumes "slots_inv s" and "goroutines s = xs @ (ep, BodyDone) # ys"
  shows "0 < sem s"
  using assms by (simp add: slots_inv_def holding_def)

lemma not_Gone_wg_pos:
  assumes "wg_inv s" and "goroutines s = xs @ (ep, ph) # ys" and "ph \<noteq> Gone"
  shows "0 < wg s"
  using assms by (simp add: wg_inv_def)

lemma no_deadlock:
  assumes "slots_inv s" and "wg_inv s" and "\<forall>s'. \<not> step d s s'"
  shows "pc s = Returned"
proof (cases "pc s")
  case Loop
  show ?thesis
  proof (cases "pending s")
    case Nil
    then show ?thesis using Loop assms(3) step.loop_wait by blast
  next
    case (Cons ep rest)
    then show ?thesis using Loop assms(3) step.loop_add by blast
  qed
next
  case (Sending ep)
  show ?thesis
  proof (cases "sem s < 3")
    case True
    then show ?thesis using Sending assms(3) step.loop_send by blast
  next
    case False
    then have "holding s \<noteq> []"
      using assms(1) Sending by (auto simp: slots_inv_def)
    then obtain xs e ph ys where g: "goroutines s = xs @ (e, ph) # ys" "ph = Started \<or> ph = BodyDone"
      using holding_cases[of "goroutines s"] unfolding holding_def by blast
    then have "\<exists>s'. step d s s'"
      using goroutine_can_step[of s xs e ph ys d] holding_sem_pos[OF assms(1)] by auto
    then show ?thesis using assms(3) by blast
  qed
next
  case (Spawning ep)
  then show ?thesis using assms(3) step.loop_go by blast
next
  case Waiting
  show ?thesis
  proof (cases "wg s = 0")
    case True
    then show ?thesis using Waiting assms(3) step.wait_pass by blast
  next
    case False
    then have "filter (\<lambda>g. snd g \<noteq> Gone) (goroutines s) \<noteq> []"
      using assms(2) Waiting by (auto simp: wg_inv_def)
    then obtain xs e ph ys where g: "goroutines s = xs @ (e, ph) # ys" "ph \<noteq> Gone"
      using not_Gone_cases by blast
    then have "\<exists>s'. step d s s'"
      using goroutine_can_step[of s xs e ph ys d] holding_sem_pos[OF assms(1)]
        not_Gone_wg_pos[OF assms(2)] by auto
    then show ?thesis using assms(3) by blast
  qed
next
  case Returned
  then show ?thesis .
qed

subsection \<open>Every episode reaches its terminal line\<close>

lemma terminal_names_log:
  "terminal_names (log l w) =
     terminal_names w @ (case terminal_name (Log l) of None \<Rightarrow> [] | Some n \<Rightarrow> [n])"
  by (simp add: terminal_names_def List.map_filter_def split: option.splits)

lemma terminal_names_tagEpisode:
  "terminal_names (snd (tagEpisode p c w)) = terminal_names w"
  by (simp add: terminal_names_def trace_tagEpisode List.map_filter_def)

lemma terminal_names_downloadFile:
  "terminal_names (snd (downloadFile url dest w)) = terminal_names w"
  by (simp add: terminal_names_def trace_downloadFile List.map_filter_def)

lemma worker_missing:
  assumes "files w (Join (OutputDir d) (fileName ep)) = None"
    and "downloadFile (URL ep) (Join (OutputDir d) (fileName ep)) (log (Downloading (fileName ep)) w) = (err, w2)"
    and "tagEpisode (Join (OutputDir d) (fileName ep)) (Join (OutputDir d) ''cover.jpg'') w2 = (err', w3)"
  shows "worker d ep w =
     (case err of
        Some e \<Rightarrow> log (ErrDownloading (fileName ep) e) w2
      | None \<Rightarrow>
          (case err' of
             Some e \<Rightarrow> log (ErrTagging (fileName ep) e) w3
           | None \<Rightarrow> log (Processed (fileName ep)) w3))"
  unfolding worker_def Let_def Stat_def assms(1) option.case sum.case assms(2) prod.case
    assms(3) ..

lemma terminal_names_worker:
  "terminal_names (worker d ep w) = terminal_names w @ [fileName ep]"
proof -
  let ?t = "Join (OutputDir d) (fileName ep)"
  let ?c = "Join (OutputDir d) ''cover.jpg''"
  let ?n = "fileName ep"
  show ?thesis
  proof (cases "files w ?t")
    case None
    obtain err w2 where dl: "downloadFile (URL ep) ?t (log (Downloading ?n) w) = (err, w2)"
      by (cases "downloadFile (URL ep) ?t (log (Downloading ?n) w)")
    obtain err' w3 where tg: "tagEpisode ?t ?c w2 = (err', w3)"
      by (cases "tagEpisode ?t ?c w2")
    have n2: "terminal_names w2 = terminal_names w"
      using terminal_names_downloadFile[of "URL ep" ?t "log (Downloading ?n) w"] dl
      by (simp add: terminal_names_log)
    have n3: "terminal_names w3 = terminal_names w"
      using terminal_names_tagEpisode[of ?t ?c w2] tg n2 by simp
    show ?thesis
      unfolding worker_missing[OF None dl tg]
      by (cases err; cases err') (simp_all add: terminal_names_log n2 n3)
  next
    case (Some f)
    obtain metaOk err where m: "metadataComplete w ?t = (metaOk, err)"
      by (cases "metadataComplete w ?t")
    define w1 where "w1 = (case err of Some e \<Rightarrow> log (ErrReadingMetadata ?n e) w | None \<Rightarrow> w)"
    obtain err' w3 where r: "tagEpisode ?t ?c (log (MetadataIncomplete ?n) w1) = (err', w3)"
      by (cases "tagEpisode ?t ?c (log (MetadataIncomplete ?n) w1)")
    have n1: "terminal_names w1 = terminal_names w"
      by (cases err) (simp_all add: w1_def terminal_names_log)
    have n3: "terminal_names w3 = terminal_names w"
      using terminal_names_tagEpisode[of ?t ?c "log (MetadataIncomplete ?n) w1"] r n1
      by (simp add: terminal_names_log)
    show ?thesis
      unfolding worker_existing[OF Some m w1_def r]
      by (cases metaOk; cases err') (simp_all add: terminal_names_log n1 n3)
  qed
qed

lemma files_downloadFile_other:
  "q \<noteq> dest \<Longrightarrow> files (snd (downloadFile url dest w)) q = files w q"
  by (simp add: downloadFile_def Let_def split: sum.splits option.splits)

lemma worker_frame:
  assumes "q \<noteq> Join (OutputDir d) (fileName ep)"
  shows "files (worker d ep w) q = files w q"
proof -
  let ?t = "Join (OutputDir d) (fileName ep)"
  let ?c = "Join (OutputDir d) ''cover.jpg''"
  let ?n = "fileName ep"
  show ?thesis
  proof (cases "files w ?t")
    case None
    obtain err w2 where dl: "downloadFile (URL ep) ?t (log (Downloading ?n) w) = (err, w2)"
      by (cases "downloadFile (URL ep) ?t (log (Downloading ?n) w)")
    obtain err' w3 where tg: "tagEpisode ?t ?c w2 = (err', w3)"
      by (cases "tagEpisode ?t ?c w2")
    have f2: "files w2 q = files w q"
      using files_downloadFile_other[OF assms, of "URL ep" "log (Downloading ?n) w"] dl by simp
    have f3: "files w3 q = files w q"
      using files_tagEpisode_other[OF assms, of ?c w2] tg f2 by simp
    show ?thesis
      unfolding worker_missing[OF None dl tg]
      by (cases err; cases err') (simp_all add: f2 f3)
  next
    case (Some f)
    obtain metaOk err where m: "metadataComplete w ?t = (metaOk, err)"
      by (cases "metadataComplete w ?t")
    define w1 where "w1 = (case err of Some e \<Rightarrow> log (ErrReadingMetadata ?n e) w | None \<Rightarrow> w)"
    obtain err' w3 where r: "tagEpisode ?t ?c (log (MetadataIncomplete ?n) w1) = (err', w3)"
      by (cases "tagEpisode ?t ?c (log (MetadataIncomplete ?n) w1)")
    have f1: "files w1 = files w"
      by (cases err) (simp_all add: w1_def)
    have f3: "files w3 q = files w q"
      using files_tagEpisode_other[OF assms, of ?c "log (MetadataIncomplete ?n) w1"] r f1 by simp
    show ?thesis
      unfolding worker_existing[OF Some m w1_def r]
      by (cases metaOk; cases err') (simp_all add: f1 f3)
  qed
qed

lemma step_names:
  assumes "step d s s'"
    and "mset (terminal_names (wld s)) =
           M + mset (map (\<lambda>g. fileName (fst g)) (filter (\<lambda>g. snd g \<noteq> Started) (goroutines s)))"
  shows "mset (terminal_names (wld s')) =
           M + mset (map (\<lambda>g. fileName (fst g)) (filter (\<lambda>g. snd g \<noteq> Started) (goroutines s')))"
  using assms by (induction rule: step.induct) (simp_all add: terminal_names_worker)

lemma step_conserve:
  assumes "step d s s'"
  shows "mset (pending s') + mset (in_hand (pc s')) + mset (map fst (goroutines s')) =
         mset (pending s) + mset (in_hand (pc s)) + mset (map fst (goroutines s))"
  using assms by (induction rule: step.induct) simp_all

lemma step_pending:
  assumes "step d s s'" and "pc s = Waiting \<or> pc s = Returned \<longrightarrow> pending s = []"
  shows "pc s' = Waiting \<or> pc s' = Returned \<longrightarrow> pending s' = []"
  using assms by (induction rule: step.induct) simp_all

lemma step_returned:
  assumes "step d s s'" and "pc s = Returned \<longrightarrow> wg s = 0"
  shows "pc s' = Returned \<longrightarrow> wg s' = 0"
  using assms by (induction rule: step.induct) simp_all

lemma reachable_bookkeeping:
  assumes "reachable d w s"
  shows "mset (terminal_names (wld s)) =
           mset (terminal_names w) +
           mset (map (\<lambda>g. fileName (fst g)) (filter (\<lambda>g. snd g \<noteq> Started) (goroutines s))) \<and>
         mset (pending s) + mset (in_hand (pc s)) + mset (map fst (goroutines s)) = mset (Episodes d) \<and>
         (pc s = Waiting \<or> pc s = Returned \<longrightarrow> pending s = []) \<and>
         (pc s = Returned \<longrightarrow> wg s = 0)"
  using assms unfolding reachable_def
proof (induction rule: rtranclp_induct)
  case base
  then show ?case by (simp add: init_def)
next
  case (step y z)
  then show ?case
    using step_names[OF step.hyps(2), of "mset (terminal_names w)"]
      step_conserve[OF step.hyps(2)] step_pending[OF step.hyps(2)] step_returned[OF step.hyps(2)]
    by simp
qed

lemma all_Gone:
  assumes "filter (\<lambda>g. snd g \<noteq> Gone) gs = []"
  shows "filter (\<lambda>g. snd g \<noteq> Started) gs = gs"
  using assms by (induction gs) (auto split: if_splits)

lemma returned_names:
  assumes "reachable d w s" and "pc s = Returned"
  shows "mset (terminal_names (wld s)) = mset (terminal_names w) + mset (map fileName (Episodes d))"
proof -
  note b = reachable_bookkeeping[OF assms(1)]
  have "wg s = 0" "pending s = []" using b assms(2) by simp_all
  moreover have "wg_inv s" using reachable_invs[OF assms(1)] by simp
  ultimately have gone: "filter (\<lambda>g. snd g \<noteq> Gone) (goroutines s) = []"
    using assms(2) by (simp add: wg_inv_def)
  have eps: "mset (map fst (goroutines s)) = mset (Episodes d)"
    using b assms(2) \<open>pending s = []\<close> by simp
  have "mset (map (\<lambda>g. fileName (fst g)) (goroutines s)) = image_mset fileName (mset (map fst (goroutines s)))"
    by (simp add: image_mset.compositionality comp_def)
  also have "\<dots> = mset (map fileName (Episodes d))"
    unfolding eps by simp
  finally show ?thesis
    using b all_Gone[OF gone] by simp
qed

subsection \<open>The run in list order, and main\<close>

lemma run_one:
  assumes "pc s = Loop" and "pending s = ep # rest" and "sem s = 0"
  shows "(step d)\<^sup>*\<^sup>* s \<lparr>pc = Loop, pending = rest, sem = 0, wg = wg s,
            goroutines = goroutines s @ [(ep, Gone)], wld = worker d ep (wld s)\<rparr>"
proof -
  let ?s1 = "\<lparr>pc = Loop, pending = rest, sem = sem s + 1, wg = wg s + 1,
            goroutines = goroutines s @ [(ep, Started)], wld = wld s\<rparr>"
  let ?s2 = "?s1\<lparr>goroutines := goroutines s @ (ep, BodyDone) # [], wld := worker d ep (wld ?s1)\<rparr>"
  let ?s3 = "?s2\<lparr>goroutines := goroutines s @ (ep, Released) # [], sem := sem ?s2 - 1\<rparr>"
  let ?s4 = "?s3\<lparr>goroutines := goroutines s @ (ep, Gone) # [], wg := wg ?s3 - 1\<rparr>"
  have 1: "(step d)\<^sup>*\<^sup>* s ?s1"
    using assms by (intro dispatch_one) simp_all
  have 2: "step d ?s1 ?s2" by (intro step.run_body) simp
  have 3: "step d ?s2 ?s3" by (intro step.release_slot) simp_all
  have 4: "step d ?s3 ?s4" by (intro step.wg_done) simp_all
  have "(step d)\<^sup>*\<^sup>* s ?s2" using 1 2 by (rule rtranclp.rtrancl_into_rtrancl)
  then have "(step d)\<^sup>*\<^sup>* s ?s3" using 3 by (rule rtranclp.rtrancl_into_rtrancl)
  then have "(step d)\<^sup>*\<^sup>* s ?s4" using 4 by (rule rtranclp.rtrancl_into_rtrancl)
  moreover have "?s4 = \<lparr>pc = Loop, pending = rest, sem = 0, wg = wg s,
            goroutines = goroutines s @ [(ep, Gone)], wld = worker d ep (wld s)\<rparr>"
    using assms(3) by simp
  ultimately show ?thesis by (simp only:)
qed

lemma run_all:
  assumes "pc s = Loop" and "pending s = eps" and "sem s = 0"
  shows "(step d)\<^sup>*\<^sup>* s \<lparr>pc = Loop, pending = [], sem = 0, wg = wg s,
            goroutines = goroutines s @ map (\<lambda>ep. (ep, Gone)) eps,
            wld = foldl (\<lambda>w ep. worker d ep w) (wld s) eps\<rparr>"
  using assms
proof (induction eps arbitrary: s)
  case Nil
  have "s = \<lparr>pc = Loop, pending = [], sem = 0, wg = wg s,
            goroutines = goroutines s @ map (\<lambda>ep. (ep, Gone)) [],
            wld = foldl (\<lambda>w ep. worker d ep w) (wld s) []\<rparr>"
    using Nil by (cases s) simp
  then show ?case by (metis rtranclp.rtrancl_refl)
next
  case (Cons ep eps)
  let ?s1 = "\<lparr>pc = Loop, pending = eps, sem = 0, wg = wg s,
            goroutines = goroutines s @ [(ep, Gone)], wld = worker d ep (wld s)\<rparr>"
  have 1: "(step d)\<^sup>*\<^sup>* s ?s1"
    using Cons.prems by (intro run_one) simp_all
  have 2: "(step d)\<^sup>*\<^sup>* ?s1 \<lparr>pc = Loop, pending = [], sem = 0, wg = wg ?s1,
            goroutines = goroutines ?s1 @ map (\<lambda>ep. (ep, Gone)) eps,
            wld = foldl (\<lambda>w ep. worker d ep w) (wld ?s1) eps\<rparr>"
    by (intro Cons.IH) simp_all
  have "(step d)\<^sup>*\<^sup>* s \<lparr>pc = Loop, pending = [], sem = 0, wg = wg ?s1,
            goroutines = goroutines ?s1 @ map (\<lambda>ep. (ep, Gone)) eps,
            wld = foldl (\<lambda>w ep. worker d ep w) (wld ?s1) eps\<rparr>"
    using 1 2 by (rule rtranclp_trans)
  then show ?case by simp
qed

lemma after_run_reachable: "reachable d w (after_run d w)"
proof -
  let ?s1 = "\<lparr>pc = Loop, pending = [], sem = 0, wg = 0,
            goroutines = map (\<lambda>ep. (ep, Gone)) (Episodes d),
            wld = downloadAndTagEpisodes d w\<rparr>"
  have 1: "(step d)\<^sup>*\<^sup>* (init d w) ?s1"
    using run_all[of "init d w" "Episodes d" d]
    by (simp add: init_def downloadAndTagEpisodes_def)
  have 2: "step d ?s1 (?s1\<lparr>pc := Waiting\<rparr>)" by (intro step.loop_wait) simp_all
  have 3: "step d (?s1\<lparr>pc := Waiting\<rparr>) (?s1\<lparr>pc := Waiting\<rparr>\<lparr>pc := Returned\<rparr>)"
    by (intro step.wait_pass) simp_all
  have "(step d)\<^sup>*\<^sup>* (init d w) (?s1\<lparr>pc := Waiting\<rparr>)"
    using 1 2 by (rule rtranclp.rtrancl_into_rtrancl)
  then have "(step d)\<^sup>*\<^sup>* (init d w) (?s1\<lparr>pc := Waiting\<rparr>\<lparr>pc := Returned\<rparr>)"
    using 3 by (rule rtranclp.rtrancl_into_rtrancl)
  moreover have "?s1\<lparr>pc := Waiting\<rparr>\<lparr>pc := Returned\<rparr> = after_run d w"
    by (simp add: after_run_def)
  ultimately show ?thesis unfolding reachable_def by (simp only:)
qed

lemma main_exit:
  "fst (main args w) =
     (let d = newDownloader (if length args > 0 then args ! 0 else ''downloaded_music'')
                ''https://musicforprogramming.net/rss.php''
                ''https://musicforprogramming.net/img/folder.jpg'' :: Episode Downloader
      in if prepareOutput d w = None \<and> fst (fetchCover d w) = None \<and>
            fst (loadEpisodes (feeds (snd (fetchCover d w)) (FeedURL d)) d) = None
         then 0 else 1)"
  by (simp add: main_def Let_def split: option.splits prod.splits)

subsection \<open>The worker of an episode reads the inputs of that episode only\<close>

lemma sim_start: "same_inputs d ep w w' \<Longrightarrow> sim d ep (length (trace w)) (length (trace w')) w w'"
  by (simp add: sim_def)

lemma sim_event:
  "sim d ep n n' w w' \<Longrightarrow>
   sim d ep n n' (w\<lparr>trace := trace w @ [e]\<rparr>) (w'\<lparr>trace := trace w' @ [e]\<rparr>)"
  by (simp add: sim_def same_inputs_def)

lemma sim_log: "sim d ep n n' w w' \<Longrightarrow> sim d ep n n' (log l w) (log l w')"
  unfolding log_def by (rule sim_event)

lemma sim_put:
  "sim d ep n n' w w' \<Longrightarrow>
   sim d ep n n' (w\<lparr>files := (files w)(targetPath d ep \<mapsto> f)\<rparr>)
                 (w'\<lparr>files := (files w')(targetPath d ep \<mapsto> f)\<rparr>)"
  by (simp add: sim_def same_inputs_def)

lemma Open_same:
  "files w p = files w' p \<Longrightarrow> raw w = raw w' \<Longrightarrow> Open w p = Open w' p"
  by (simp add: Open_def split: option.splits container.splits)

lemma sim_metadataComplete:
  "sim d ep n n' w w' \<Longrightarrow>
   metadataComplete w (targetPath d ep) = metadataComplete w' (targetPath d ep)"
  by (simp add: sim_def metadataComplete_def same_inputs_def Open_same[of w "targetPath d ep" w'])

lemma downloadFile_Inl:
  "remote w url = Inl e \<Longrightarrow>
   downloadFile url dest w = (Some e, w\<lparr>trace := trace w @ [DownloadFile url dest]\<rparr>)"
  by (simp add: downloadFile_def Let_def)

lemma downloadFile_denied:
  "remote w url = Inr resp \<Longrightarrow> denied w dest = Some e \<Longrightarrow>
   downloadFile url dest w = (Some e, w\<lparr>trace := trace w @ [DownloadFile url dest]\<rparr>)"
  by (simp add: downloadFile_def Let_def)

lemma downloadFile_written:
  "remote w url = Inr resp \<Longrightarrow> denied w dest = None \<Longrightarrow>
   downloadFile url dest w =
     (copy_error resp,
      (w\<lparr>trace := trace w @ [DownloadFile url dest]\<rparr>)\<lparr>files := (files w)(dest \<mapsto> body resp)\<rparr>)"
  by (simp add: downloadFile_def Let_def)

lemma sim_downloadFile:
  assumes "sim d ep n n' w w'"
  shows "fst (downloadFile (URL ep) (targetPath d ep) w) =
         fst (downloadFile (URL ep) (targetPath d ep) w') \<and>
         sim d ep n n' (snd (downloadFile (URL ep) (targetPath d ep) w))
                       (snd (downloadFile (URL ep) (targetPath d ep) w'))"
proof -
  let ?t = "targetPath d ep"
  let ?e = "DownloadFile (URL ep) ?t"
  let ?v = "w\<lparr>trace := trace w @ [?e]\<rparr>"
  let ?v' = "w'\<lparr>trace := trace w' @ [?e]\<rparr>"
  have s: "sim d ep n n' ?v ?v'" using assms by (rule sim_event)
  have r: "remote w' (URL ep) = remote w (URL ep)"
    and dn: "denied w' ?t = denied w ?t"
    using assms by (simp_all add: sim_def same_inputs_def)
  show ?thesis
  proof (cases "remote w (URL ep)")
    case (Inl e)
    have r': "remote w' (URL ep) = Inl e" using r Inl by simp
    show ?thesis unfolding downloadFile_Inl[OF Inl] downloadFile_Inl[OF r'] fst_conv snd_conv
      using s by simp
  next
    case (Inr resp)
    have r': "remote w' (URL ep) = Inr resp" using r Inr by simp
    show ?thesis
    proof (cases "denied w ?t")
      case (Some e)
      have d': "denied w' ?t = Some e" using dn Some by simp
      show ?thesis
        unfolding downloadFile_denied[OF Inr Some] downloadFile_denied[OF r' d'] fst_conv snd_conv
        using s by simp
    next
      case None
      have d': "denied w' ?t = None" using dn None by simp
      have "sim d ep n n' (?v\<lparr>files := (files ?v)(?t \<mapsto> body resp)\<rparr>)
                 (?v'\<lparr>files := (files ?v')(?t \<mapsto> body resp)\<rparr>)"
        using s by (rule sim_put)
      then show ?thesis
        unfolding downloadFile_written[OF Inr None] downloadFile_written[OF r' d'] fst_conv snd_conv
        by simp
    qed
  qed
qed

lemma tagEpisode_Open_fails:
  "Open w p = Inl e \<Longrightarrow>
   tagEpisode p c w = (Some e, w\<lparr>trace := trace w @ [TagEpisode p c]\<rparr>)"
  by (simp add: tagEpisode_def)

lemma tagEpisode_ReadFile_fails:
  "Open w p = Inr tag \<Longrightarrow> ReadFile w c = Inl e \<Longrightarrow>
   tagEpisode p c w = (Some e, w\<lparr>trace := trace w @ [TagEpisode p c]\<rparr>)"
  by (simp add: tagEpisode_def)

lemma tagEpisode_Save_fails:
  "Open w p = Inr tag \<Longrightarrow> ReadFile w c = Inr cover \<Longrightarrow> files w p = Some f \<Longrightarrow>
   denied w p = Some e \<Longrightarrow>
   tagEpisode p c w = (Some e, w\<lparr>trace := trace w @ [TagEpisode p c]\<rparr>)"
  by (simp add: tagEpisode_def Save_def Let_def)

lemma tagEpisode_saved:
  "Open w p = Inr tag \<Longrightarrow> ReadFile w c = Inr cover \<Longrightarrow> files w p = Some f \<Longrightarrow>
   denied w p = None \<Longrightarrow>
   tagEpisode p c w =
     (None, (w\<lparr>trace := trace w @ [TagEpisode p c]\<rparr>)
              \<lparr>files := (files w)(p \<mapsto> f\<lparr>id3 := HasTag
                 (AddAttachedPicture (SetAlbum tag ''Music For Programming'') (tagger_picture cover))\<rparr>)\<rparr>)"
  by (simp add: tagEpisode_def Save_def Let_def tagger_picture_def)

lemma Open_Inr_file: "Open w p = Inr tag \<Longrightarrow> \<exists>f. files w p = Some f"
  by (auto simp: Open_def split: option.splits)

lemma sim_tagEpisode:
  assumes "sim d ep n n' w w'"
  shows "fst (tagEpisode (targetPath d ep) (coverPath d) w) =
         fst (tagEpisode (targetPath d ep) (coverPath d) w') \<and>
         sim d ep n n' (snd (tagEpisode (targetPath d ep) (coverPath d) w))
                       (snd (tagEpisode (targetPath d ep) (coverPath d) w'))"
proof -
  let ?t = "targetPath d ep"
  let ?c = "coverPath d"
  let ?e = "TagEpisode ?t ?c"
  let ?v = "w\<lparr>trace := trace w @ [?e]\<rparr>"
  let ?v' = "w'\<lparr>trace := trace w' @ [?e]\<rparr>"
  have s: "sim d ep n n' ?v ?v'" using assms by (rule sim_event)
  have ft: "files w' ?t = files w ?t" and fc: "files w' ?c = files w ?c"
    and dn: "denied w' ?t = denied w ?t" and rw: "raw w' = raw w"
    using assms by (simp_all add: sim_def same_inputs_def)
  have o: "Open w' ?t = Open w ?t"
    using ft rw by (rule Open_same)
  have r: "ReadFile w' ?c = ReadFile w ?c"
    using fc rw by (simp add: ReadFile_def split: option.splits)
  show ?thesis
  proof (cases "Open w ?t")
    case (Inl e)
    have o': "Open w' ?t = Inl e" using o Inl by simp
    show ?thesis
      unfolding tagEpisode_Open_fails[OF Inl] tagEpisode_Open_fails[OF o'] fst_conv snd_conv
      using s by simp
  next
    case (Inr tag)
    have o': "Open w' ?t = Inr tag" using o Inr by simp
    obtain f where f: "files w ?t = Some f" using Open_Inr_file[OF Inr] by blast
    have f': "files w' ?t = Some f" using ft f by simp
    show ?thesis
    proof (cases "ReadFile w ?c")
      case (Inl e)
      have r': "ReadFile w' ?c = Inl e" using r Inl by simp
      show ?thesis
        unfolding tagEpisode_ReadFile_fails[OF Inr Inl] tagEpisode_ReadFile_fails[OF o' r']
          fst_conv snd_conv
        using s by simp
    next
      case cover: (Inr cover)
      have r': "ReadFile w' ?c = Inr cover" using r cover by simp
      show ?thesis
      proof (cases "denied w ?t")
        case (Some e)
        have d': "denied w' ?t = Some e" using dn Some by simp
        show ?thesis
          unfolding tagEpisode_Save_fails[OF Inr cover f Some]
            tagEpisode_Save_fails[OF o' r' f' d'] fst_conv snd_conv
          using s by simp
      next
        case None
        have d': "denied w' ?t = None" using dn None by simp
        let ?g = "f\<lparr>id3 := HasTag
                 (AddAttachedPicture (SetAlbum tag ''Music For Programming'') (tagger_picture cover))\<rparr>"
        have "sim d ep n n' (?v\<lparr>files := (files ?v)(?t \<mapsto> ?g)\<rparr>)
                 (?v'\<lparr>files := (files ?v')(?t \<mapsto> ?g)\<rparr>)"
          using s by (rule sim_put)
        then show ?thesis
          unfolding tagEpisode_saved[OF Inr cover f None] tagEpisode_saved[OF o' r' f' d']
            fst_conv snd_conv
          by simp
      qed
    qed
  qed
qed

lemma sim_worker:
  assumes "sim d ep n n' w w'"
  shows "sim d ep n n' (worker d ep w) (worker d ep w')"
proof -
  let ?t = "Join (OutputDir d) (fileName ep)"
  let ?c = "Join (OutputDir d) ''cover.jpg''"
  let ?n = "fileName ep"
  have T: "targetPath d ep = ?t" and C: "coverPath d = ?c"
    by (simp_all add: targetPath_def coverPath_def)
  have ft: "files w' ?t = files w ?t"
    using assms by (simp add: sim_def same_inputs_def T)
  show ?thesis
  proof (cases "files w ?t")
    case None
    have None': "files w' ?t = None" using ft None by simp
    let ?a = "log (Downloading ?n) w"
    let ?a' = "log (Downloading ?n) w'"
    have sa: "sim d ep n n' ?a ?a'" using assms by (rule sim_log)
    obtain err w2 where dl: "downloadFile (URL ep) ?t ?a = (err, w2)"
      by (cases "downloadFile (URL ep) ?t ?a")
    obtain err2 w2' where dl': "downloadFile (URL ep) ?t ?a' = (err2, w2')"
      by (cases "downloadFile (URL ep) ?t ?a'")
    have e2: "err2 = err" and s2: "sim d ep n n' w2 w2'"
      using sim_downloadFile[OF sa] dl dl' by (simp_all add: T)
    obtain err' w3 where tg: "tagEpisode ?t ?c w2 = (err', w3)"
      by (cases "tagEpisode ?t ?c w2")
    obtain err3 w3' where tg': "tagEpisode ?t ?c w2' = (err3, w3')"
      by (cases "tagEpisode ?t ?c w2'")
    have e3: "err3 = err'" and s3: "sim d ep n n' w3 w3'"
      using sim_tagEpisode[OF s2] tg tg' by (simp_all add: T C)
    show ?thesis
      unfolding worker_missing[OF None dl tg] worker_missing[OF None' dl' tg'] e2 e3
      by (cases err; cases err') (simp_all add: sim_log s2 s3)
  next
    case (Some f)
    have Some': "files w' ?t = Some f" using ft Some by simp
    obtain metaOk err where m: "metadataComplete w ?t = (metaOk, err)"
      by (cases "metadataComplete w ?t")
    have m': "metadataComplete w' ?t = (metaOk, err)"
      using sim_metadataComplete[OF assms] m by (simp add: T)
    define w1 where "w1 = (case err of Some e \<Rightarrow> log (ErrReadingMetadata ?n e) w | None \<Rightarrow> w)"
    define w1' where "w1' = (case err of Some e \<Rightarrow> log (ErrReadingMetadata ?n e) w' | None \<Rightarrow> w')"
    have s1: "sim d ep n n' w1 w1'"
      unfolding w1_def w1'_def using assms by (cases err) (simp_all add: sim_log)
    have sm: "sim d ep n n' (log (MetadataIncomplete ?n) w1) (log (MetadataIncomplete ?n) w1')"
      using s1 by (rule sim_log)
    obtain err' w3 where r: "tagEpisode ?t ?c (log (MetadataIncomplete ?n) w1) = (err', w3)"
      by (cases "tagEpisode ?t ?c (log (MetadataIncomplete ?n) w1)")
    obtain err3 w3' where r': "tagEpisode ?t ?c (log (MetadataIncomplete ?n) w1') = (err3, w3')"
      by (cases "tagEpisode ?t ?c (log (MetadataIncomplete ?n) w1')")
    have e3: "err3 = err'" and s3: "sim d ep n n' w3 w3'"
      using sim_tagEpisode[OF sm] r r' by (simp_all add: T C)
    show ?thesis
      unfolding worker_existing[OF Some m w1_def r] worker_existing[OF Some' m' w1'_def r'] e3
      by (cases metaOk; cases err') (simp_all add: sim_log s1 s3)
  qed
qed

lemma worker_local:
  assumes "same_inputs d ep w w'"
  shows "new_events d ep w = new_events d ep w' \<and>
         same_inputs d ep (worker d ep w) (worker d ep w')"
  using sim_worker[OF sim_start[OF assms]]
  by (simp add: sim_def new_events_def)

lemma distinct_submset:
  assumes "mset xs \<subseteq># mset ys" and "distinct ys"
  shows "distinct xs"
proof -
  have "count (mset xs) a = (if a \<in> set xs then 1 else 0)" for a
  proof (cases "a \<in> set xs")
    case True
    have "count (mset xs) a \<le> count (mset ys) a"
      using assms(1) by (rule mset_subset_eq_count)
    moreover have "count (mset ys) a \<le> 1"
      using assms(2) by (simp add: distinct_count_atmost_1)
    moreover have "0 < count (mset xs) a" using True by simp
    ultimately have "count (mset xs) a = 1" by linarith
    then show ?thesis using True by simp
  next
    case False
    then show ?thesis by simp
  qed
  then show ?thesis by (simp only: distinct_count_atmost_1) simp
qed

lemma keeps_refl: "keeps w w" by (simp add: keeps_def)

lemma keeps_event: "keeps w w' \<Longrightarrow> keeps w (w'\<lparr>trace := trace w' @ es\<rparr>)"
  by (auto simp: keeps_def)

lemma keeps_log: "keeps w w' \<Longrightarrow> keeps w (log l w')"
  unfolding log_def by (rule keeps_event)

lemma keeps_files: "keeps w w' \<Longrightarrow> keeps w (w'\<lparr>files := fs\<rparr>)"
  by (simp add: keeps_def)

lemma keeps_downloadFile:
  assumes "keeps w w'"
  shows "keeps w (snd (downloadFile u t w'))"
proof (cases "remote w' u")
  case (Inl e)
  show ?thesis unfolding downloadFile_Inl[OF Inl] snd_conv using assms by (rule keeps_event)
next
  case (Inr resp)
  show ?thesis
  proof (cases "denied w' t")
    case (Some e)
    show ?thesis unfolding downloadFile_denied[OF Inr Some] snd_conv
      using assms by (rule keeps_event)
  next
    case None
    show ?thesis unfolding downloadFile_written[OF Inr None] snd_conv
      by (intro keeps_files keeps_event assms)
  qed
qed

lemma keeps_tagEpisode:
  assumes "keeps w w'"
  shows "keeps w (snd (tagEpisode p c w'))"
proof -
  have k: "keeps w (w'\<lparr>trace := trace w' @ [TagEpisode p c]\<rparr>)"
    using assms by (rule keeps_event)
  consider e where "tagEpisode p c w' = (Some e, w'\<lparr>trace := trace w' @ [TagEpisode p c]\<rparr>)"
    | f t where "tagEpisode p c w' =
        (None, (w'\<lparr>trace := trace w' @ [TagEpisode p c]\<rparr>)\<lparr>files := (files w')(p \<mapsto> f\<lparr>id3 := HasTag t\<rparr>)\<rparr>)"
    using tagEpisode_cases[of p c w'] by auto
  then show ?thesis
  proof cases
    case 1
    show ?thesis unfolding 1 snd_conv by (rule k)
  next
    case 2
    show ?thesis unfolding 2 snd_conv using k by (rule keeps_files)
  qed
qed

lemma keeps_worker: "keeps w (worker d ep w)"
proof -
  let ?t = "Join (OutputDir d) (fileName ep)"
  let ?c = "Join (OutputDir d) ''cover.jpg''"
  let ?n = "fileName ep"
  show ?thesis
  proof (cases "files w ?t")
    case None
    obtain err w2 where dl: "downloadFile (URL ep) ?t (log (Downloading ?n) w) = (err, w2)"
      by (cases "downloadFile (URL ep) ?t (log (Downloading ?n) w)")
    obtain err' w3 where tg: "tagEpisode ?t ?c w2 = (err', w3)"
      by (cases "tagEpisode ?t ?c w2")
    have "keeps w (log (Downloading ?n) w)" by (intro keeps_log keeps_refl)
    then have k2: "keeps w w2"
      using keeps_downloadFile[of w "log (Downloading ?n) w" "URL ep" ?t] dl by simp
    have k3: "keeps w w3"
      using keeps_tagEpisode[OF k2, of ?t ?c] tg by simp
    show ?thesis
      unfolding worker_missing[OF None dl tg]
      by (cases err; cases err') (simp_all add: keeps_log k2 k3)
  next
    case (Some f)
    obtain metaOk err where m: "metadataComplete w ?t = (metaOk, err)"
      by (cases "metadataComplete w ?t")
    define w1 where "w1 = (case err of Some e \<Rightarrow> log (ErrReadingMetadata ?n e) w | None \<Rightarrow> w)"
    obtain err' w3 where r: "tagEpisode ?t ?c (log (MetadataIncomplete ?n) w1) = (err', w3)"
      by (cases "tagEpisode ?t ?c (log (MetadataIncomplete ?n) w1)")
    have k1: "keeps w w1"
      unfolding w1_def by (cases err) (simp_all add: keeps_log keeps_refl)
    have "keeps w (log (MetadataIncomplete ?n) w1)" using k1 by (rule keeps_log)
    then have k3: "keeps w w3"
      using keeps_tagEpisode[of w "log (MetadataIncomplete ?n) w1" ?t ?c] r by simp
    show ?thesis
      unfolding worker_existing[OF Some m w1_def r]
      by (cases metaOk; cases err') (simp_all add: keeps_log k1 k3)
  qed
qed

lemma trace_worker: "trace (worker d ep w) = trace w @ new_events d ep w"
proof -
  obtain es where "trace (worker d ep w) = trace w @ es"
    using keeps_worker[of w d ep] unfolding keeps_def by blast
  then show ?thesis
    unfolding new_events_def by simp
qed

lemma isolated_cong:
  "isolated d w s \<Longrightarrow> wld s' = wld s \<Longrightarrow> finished s' = finished s \<Longrightarrow> isolated d w s'"
  by (simp add: isolated_def)

lemma isolated_run_body:
  assumes iso: "isolated d w s"
    and sep: "separate_targets d"
    and g: "goroutines s = xs @ (ep, Started) # ys"
    and sub: "mset (map fst (goroutines s)) \<subseteq># mset (Episodes d)"
    and g': "goroutines s' = xs @ (ep, BodyDone) # ys"
    and w': "wld s' = worker d ep (wld s)"
  shows "isolated d w s'"
proof -
  let ?F = "\<lambda>l. map fst (filter (\<lambda>g. snd g \<noteq> Started) l)"
  let ?tp = "targetPath d"
  have fin: "finished s = ?F xs @ ?F ys" by (simp add: finished_def g)
  have fin': "finished s' = ?F xs @ ep # ?F ys" by (simp add: finished_def g')
  have "image_mset ?tp (mset (map fst (goroutines s))) \<subseteq># image_mset ?tp (mset (Episodes d))"
    using sub by (rule image_mset_subseteq_mono)
  then have "mset (map ?tp (map fst (goroutines s))) \<subseteq># mset (map ?tp (Episodes d))"
    by (simp only: mset_map)
  moreover have "distinct (map ?tp (Episodes d))"
    using sep by (simp add: separate_targets_def)
  ultimately have dist: "distinct (map ?tp (map fst (goroutines s)))"
    by (rule distinct_submset)
  have inEp: "set (map fst (goroutines s)) \<subseteq> set (Episodes d)"
    using set_mset_mono[OF sub] by simp
  have fsub: "set (finished s) \<subseteq> set (map fst xs) \<union> set (map fst ys)"
    unfolding fin by auto
  have d1: "?tp ep \<notin> ?tp ` (set (map fst xs) \<union> set (map fst ys))"
    using dist unfolding g by (simp add: image_Un) blast
  have notin: "?tp ep \<notin> ?tp ` set (finished s)"
    using d1 fsub by blast
  have "set (map fst xs) \<union> set (map fst ys) \<subseteq> set (Episodes d)"
    using inEp unfolding g by simp
  then have finIn: "set (finished s) \<subseteq> set (Episodes d)" using fsub by blast
  have cov: "coverPath d \<notin> ?tp ` set (finished s)"
    using sep finIn by (auto simp: separate_targets_def)
  have A: "remote (wld s) = remote w" "denied (wld s) = denied w" "raw (wld s) = raw w"
    and B: "\<And>q. q \<notin> ?tp ` set (finished s) \<Longrightarrow> files (wld s) q = files w q"
    and C: "\<And>e. e \<in> set (finished s) \<Longrightarrow> files (wld s) (?tp e) = files (worker d e w) (?tp e)"
    using iso by (simp_all add: isolated_def)
  obtain order where o: "mset order = mset (finished s)"
    and tr: "trace (wld s) = trace w @ concat (map (\<lambda>ep. new_events d ep w) order)"
    using iso unfolding isolated_def by blast
  have same: "same_inputs d ep w (wld s)"
    unfolding same_inputs_def using A B[OF notin] B[OF cov] by simp
  have ev: "new_events d ep (wld s) = new_events d ep w"
    and so: "same_inputs d ep (worker d ep w) (worker d ep (wld s))"
    using worker_local[OF same] by simp_all
  have k: "keeps (wld s) (worker d ep (wld s))" by (rule keeps_worker)
  have A': "remote (wld s') = remote w \<and> denied (wld s') = denied w \<and> raw (wld s') = raw w"
    using k A unfolding w' by (simp add: keeps_def)
  have B': "\<forall>q. q \<notin> set (map ?tp (finished s')) \<longrightarrow> files (wld s') q = files w q"
  proof (intro allI impI)
    fix q assume q: "q \<notin> set (map ?tp (finished s'))"
    have "q \<noteq> ?tp ep" using q unfolding fin' by auto
    then have q1: "q \<noteq> Join (OutputDir d) (fileName ep)"
      by (simp add: targetPath_def)
    have q2: "q \<notin> ?tp ` set (finished s)" using q unfolding fin fin' by auto
    show "files (wld s') q = files w q"
      unfolding w' worker_frame[OF q1] by (rule B[OF q2])
  qed
  have C': "\<forall>e \<in> set (finished s'). files (wld s') (?tp e) = files (worker d e w) (?tp e)"
  proof
    fix e assume e: "e \<in> set (finished s')"
    show "files (wld s') (?tp e) = files (worker d e w) (?tp e)"
    proof (cases "e \<in> set (finished s)")
      case True
      have "?tp e \<in> ?tp ` set (finished s)" using True by (rule imageI)
      then have "?tp e \<noteq> ?tp ep" using notin by metis
      then have ne: "?tp e \<noteq> Join (OutputDir d) (fileName ep)"
        by (simp add: targetPath_def)
      show ?thesis unfolding w' worker_frame[OF ne] by (rule C[OF True])
    next
      case False
      then have "e = ep" using e unfolding fin fin' by auto
      then show ?thesis using so unfolding w' by (simp add: same_inputs_def)
    qed
  qed
  have D': "\<exists>order. mset order = mset (finished s') \<and>
        trace (wld s') = trace w @ concat (map (\<lambda>ep. new_events d ep w) order)"
  proof (intro exI[of _ "order @ [ep]"] conjI)
    show "mset (order @ [ep]) = mset (finished s')" using o unfolding fin fin' by simp
    show "trace (wld s') = trace w @ concat (map (\<lambda>ep. new_events d ep w) (order @ [ep]))"
      unfolding w' trace_worker[of d ep "wld s"] ev tr by simp
  qed
  show ?thesis unfolding isolated_def using A' B' C' D' by blast
qed

lemma step_isolated:
  assumes "step d s s'" and "isolated d w s" and "separate_targets d"
    and "mset (map fst (goroutines s)) \<subseteq># mset (Episodes d)"
  shows "isolated d w s'"
  using assms
proof (induction rule: step.induct)
  case (loop_add s ep rest)
  then show ?case by (intro isolated_cong[OF loop_add.prems(1)]) (simp_all add: finished_def)
next
  case (loop_send s ep)
  then show ?case by (intro isolated_cong[OF loop_send.prems(1)]) (simp_all add: finished_def)
next
  case (loop_go s ep)
  then show ?case by (intro isolated_cong[OF loop_go.prems(1)]) (simp_all add: finished_def)
next
  case (loop_wait s)
  then show ?case by (intro isolated_cong[OF loop_wait.prems(1)]) (simp_all add: finished_def)
next
  case (wait_pass s)
  then show ?case by (intro isolated_cong[OF wait_pass.prems(1)]) (simp_all add: finished_def)
next
  case (run_body s xs ep ys)
  show ?case
    by (rule isolated_run_body[OF run_body.prems(1) run_body.prems(2) run_body.hyps run_body.prems(3)])
       simp_all
next
  case (release_slot s xs ep ys)
  then show ?case by (intro isolated_cong[OF release_slot.prems(1)]) (simp_all add: finished_def)
next
  case (wg_done s xs ep ys)
  then show ?case by (intro isolated_cong[OF wg_done.prems(1)]) (simp_all add: finished_def)
qed

lemma reachable_isolated:
  assumes "reachable d w s" and "separate_targets d"
  shows "isolated d w s"
  using assms(1) unfolding reachable_def
proof (induction rule: rtranclp_induct)
  case base
  show ?case by (simp add: isolated_def init_def finished_def)
next
  case (step y z)
  have r: "reachable d w y" using step.hyps(1) by (simp add: reachable_def)
  have "mset (pending y) + mset (in_hand (pc y)) + mset (map fst (goroutines y)) = mset (Episodes d)"
    using reachable_bookkeeping[OF r] by blast
  then have "mset (map fst (goroutines y)) \<subseteq># mset (Episodes d)"
    by (metis mset_subset_eq_add_right)
  then show ?case using step_isolated[OF step.hyps(2) step.IH assms(2)] by blast
qed

lemma returned_finished:
  assumes "reachable d w s" and "pc s = Returned"
  shows "mset (finished s) = mset (Episodes d)"
proof -
  note b = reachable_bookkeeping[OF assms(1)]
  have "wg s = 0" "pending s = []" using b assms(2) by simp_all
  moreover have "wg_inv s" using reachable_invs[OF assms(1)] by simp
  ultimately have gone: "filter (\<lambda>g. snd g \<noteq> Gone) (goroutines s) = []"
    using assms(2) by (simp add: wg_inv_def)
  have eps: "mset (map fst (goroutines s)) = mset (Episodes d)"
    using b assms(2) \<open>pending s = []\<close> by simp
  show ?thesis unfolding finished_def all_Gone[OF gone] by (rule eps)
qed

lemma complete_last_same:
  "files w p = files w' p \<Longrightarrow> raw w = raw w' \<Longrightarrow> complete_last w p = complete_last w' p"
  by (simp add: complete_last_def Stat_def metadataComplete_def Open_same[of w p w']
      split: option.splits)

text \<open>
  Claim C7. Whatever the fetches, the taggings and the metadata reads of the episodes
  return: every step of a run decreases a measure, so every run ends; a run can only
  stop after \<^verbatim>\<open>wg.Wait()\<close> has returned; by then every episode of the list has logged
  its terminal line, once; a worker, failing or not, changes no file but the target of
  its own episode; the run in list order is such a run; and the exit status of
  \<^verbatim>\<open>main\<close> is 0 exactly when the output directory, the cover and the feed were set
  up, otherwise 1, so that no error of an episode changes it.
  What the worker of an episode does is decided by the inputs of that episode alone: in
  two worlds that agree on the target file of the episode, on the cover file, on the
  answer of the server for its URL, on the write permission for its target and on the
  byte images, the worker appends the same events (log lines with their errors, and
  calls) and leaves the same target file, whatever the trace and the other files hold;
  and the worker only appends to the trace.
  When no two episodes of the list share a target and no target is the cover file, every
  state of every run is isolated: the target of each episode whose body has run is as its
  worker leaves it when run alone in the initial world, and the trace is the initial one
  followed by the events of those episodes, each block as when run alone in the initial
  world. Once \<^verbatim>\<open>wg.Wait()\<close> has returned, this holds for every episode of the list.
\<close>

theorem episode_failures_stay_local:
  assumes "reachable d w s"
  shows "(\<forall>s'. step d s s' \<longrightarrow> steps_left s' < steps_left s) \<and>
         ((\<forall>s'. \<not> step d s s') \<longrightarrow> pc s = Returned) \<and>
         (pc s = Returned \<longrightarrow>
            mset (terminal_names (wld s)) =
            mset (terminal_names w) + mset (map fileName (Episodes d))) \<and>
         (\<forall>ep q. q \<noteq> Join (OutputDir d) (fileName ep) \<longrightarrow>
            files (worker d ep (wld s)) q = files (wld s) q) \<and>
         reachable d w (after_run d w) \<and>
         fst (main args w0) =
           (let d0 = newDownloader (if length args > 0 then args ! 0 else ''downloaded_music'')
                ''https://musicforprogramming.net/rss.php''
                ''https://musicforprogramming.net/img/folder.jpg'' :: Episode Downloader
            in if prepareOutput d0 w0 = None \<and> fst (fetchCover d0 w0) = None \<and>
                  fst (loadEpisodes (feeds (snd (fetchCover d0 w0)) (FeedURL d0)) d0) = None
               then 0 else 1) \<and>
         (\<forall>ep w1 w2. same_inputs d ep w1 w2 \<longrightarrow>
            new_events d ep w1 = new_events d ep w2 \<and>
            files (worker d ep w1) (targetPath d ep) = files (worker d ep w2) (targetPath d ep)) \<and>
         (\<forall>ep. trace (worker d ep (wld s)) = trace (wld s) @ new_events d ep (wld s)) \<and>
         (separate_targets d \<longrightarrow> isolated d w s) \<and>
         (pc s = Returned \<longrightarrow> mset (finished s) = mset (Episodes d)) \<and>
         (separate_targets d \<and> pc s = Returned \<longrightarrow>
            (\<forall>ep \<in> set (Episodes d).
               files (wld s) (targetPath d ep) = files (worker d ep w) (targetPath d ep)) \<and>
            (\<exists>order. mset order = mset (Episodes d) \<and>
               trace (wld s) = trace w @ concat (map (\<lambda>ep. new_events d ep w) order)))"
proof -
  have a: "\<forall>s'. step d s s' \<longrightarrow> steps_left s' < steps_left s"
    using step_decreases by blast
  have b: "(\<forall>s'. \<not> step d s s') \<longrightarrow> pc s = Returned"
    using no_deadlock[of s d] reachable_invs[OF assms] by blast
  have c: "pc s = Returned \<longrightarrow>
            mset (terminal_names (wld s)) =
            mset (terminal_names w) + mset (map fileName (Episodes d))"
    using returned_names[OF assms] by blast
  have f: "\<forall>ep q. q \<noteq> Join (OutputDir d) (fileName ep) \<longrightarrow>
            files (worker d ep (wld s)) q = files (wld s) q"
    using worker_frame by blast
  have e1: "\<forall>ep w1 w2. same_inputs d ep w1 w2 \<longrightarrow>
            new_events d ep w1 = new_events d ep w2 \<and>
            files (worker d ep w1) (targetPath d ep) = files (worker d ep w2) (targetPath d ep)"
  proof (intro allI impI)
    fix ep w1 w2
    assume h: "same_inputs d ep w1 w2"
    have n: "new_events d ep w1 = new_events d ep w2"
      and o: "same_inputs d ep (worker d ep w1) (worker d ep w2)"
      using worker_local[OF h] by blast+
    have "files (worker d ep w1) (targetPath d ep) = files (worker d ep w2) (targetPath d ep)"
      using o unfolding same_inputs_def by blast
    then show "new_events d ep w1 = new_events d ep w2 \<and>
            files (worker d ep w1) (targetPath d ep) = files (worker d ep w2) (targetPath d ep)"
      using n by blast
  qed
  have e2: "\<forall>ep. trace (worker d ep (wld s)) = trace (wld s) @ new_events d ep (wld s)"
    using trace_worker by blast
  have e3: "separate_targets d \<longrightarrow> isolated d w s"
    using reachable_isolated[OF assms] by blast
  have e4: "pc s = Returned \<longrightarrow> mset (finished s) = mset (Episodes d)"
    using returned_finished[OF assms] by blast
  have e5: "separate_targets d \<and> pc s = Returned \<longrightarrow>
            (\<forall>ep \<in> set (Episodes d).
               files (wld s) (targetPath d ep) = files (worker d ep w) (targetPath d ep)) \<and>
            (\<exists>order. mset order = mset (Episodes d) \<and>
               trace (wld s) = trace w @ concat (map (\<lambda>ep. new_events d ep w) order))"
  proof
    assume h: "separate_targets d \<and> pc s = Returned"
    have m: "mset (finished s) = mset (Episodes d)" using e4 h by blast
    have st: "set (finished s) = set (Episodes d)" using m by (rule mset_eq_setD)
    have i: "isolated d w s" using e3 h by blast
    show "(\<forall>ep \<in> set (Episodes d).
               files (wld s) (targetPath d ep) = files (worker d ep w) (targetPath d ep)) \<and>
            (\<exists>order. mset order = mset (Episodes d) \<and>
               trace (wld s) = trace w @ concat (map (\<lambda>ep. new_events d ep w) order))"
      using i unfolding isolated_def st m by blast
  qed
  show ?thesis
    using a b c f after_run_reachable[of d w] main_exit[of args w0] e1 e2 e3 e4 e5
    by (simp only: simp_thms)
qed

lemma Join_ep01: "Join ''out'' (fileName episode01) = ''out/01 - Night Drive.mp3''"
  by (simp add: fileName_def episode01_def Join_def Clean_def)

lemma Join_ep02: "Join ''out'' (fileName episode02) = ''out/02 - Night Drive.mp3''"
  by (simp add: fileName_def episode02_def Join_def Clean_def)

lemma separate_first_and_second: "separate_targets first_and_second"
  by (simp add: separate_targets_def targetPath_def coverPath_def first_and_second_def
      Join_ep01 Join_ep02 cover_example_Join cover_example_def)

lemma worker_flaky_01:
  "worker first_and_second episode01 world_flaky =
     world_flaky\<lparr>trace :=
        [Log (Downloading ''01 - Night Drive.mp3''),
         DownloadFile ''https://host/ep01.mp3'' ''out/01 - Night Drive.mp3'',
         Log (ErrDownloading ''01 - Night Drive.mp3'' (Error ''no route to host''))]\<rparr>"
proof -
  have out: "OutputDir first_and_second = ''out''" by (simp add: first_and_second_def)
  have url: "URL episode01 = ''https://host/ep01.mp3''" by (simp add: episode01_def)
  have n: "fileName episode01 = ''01 - Night Drive.mp3''"
    by (simp add: fileName_def episode01_def)
  let ?t = "''out/01 - Night Drive.mp3''"
  let ?w1 = "log (Downloading ''01 - Night Drive.mp3'') world_flaky"
  have f: "files world_flaky ?t = None"
    by (simp add: world_flaky_def cover_example_def)
  have dl: "downloadFile ''https://host/ep01.mp3'' ?t ?w1 =
      (Some (Error ''no route to host''),
       ?w1\<lparr>trace := trace ?w1 @ [DownloadFile ''https://host/ep01.mp3'' ?t]\<rparr>)"
    by (rule downloadFile_Inl) (simp add: world_flaky_def flaky_def)
  obtain e3 w3 where tg: "tagEpisode ?t (Join ''out'' ''cover.jpg'')
       (?w1\<lparr>trace := trace ?w1 @ [DownloadFile ''https://host/ep01.mp3'' ?t]\<rparr>) = (e3, w3)"
    by (cases "tagEpisode ?t (Join ''out'' ''cover.jpg'')
       (?w1\<lparr>trace := trace ?w1 @ [DownloadFile ''https://host/ep01.mp3'' ?t]\<rparr>)")
  have j: "Join ''out'' ''01 - Night Drive.mp3'' = ?t"
    using Join_ep01 unfolding n .
  have f': "files world_flaky (Join (OutputDir first_and_second) (fileName episode01)) = None"
    unfolding out Join_ep01 by (rule f)
  show ?thesis
    using worker_missing[OF f', unfolded out url n j, OF dl tg]
    by (simp add: world_flaky_def log_def)
qed

lemma worker_flaky_02:
  "worker first_and_second episode02 world_flaky =
     world_flaky\<lparr>trace :=
        [Log (Downloading ''02 - Night Drive.mp3''),
         DownloadFile ''https://host/ep02.mp3'' ''out/02 - Night Drive.mp3'',
         TagEpisode ''out/02 - Night Drive.mp3'' ''out/cover.jpg'',
         Log (Processed ''02 - Night Drive.mp3'')],
       files := [cover_example \<mapsto> jpeg,
                 ''out/02 - Night Drive.mp3'' \<mapsto>
                   \<lparr>id3 = HasTag \<lparr>text_frames = [''TALB'' \<mapsto> ''Music For Programming''],
                                  pictures = [tagger_picture ''JFIF'']\<rparr>,
                    audio = ''twelve bytes''\<rparr>]\<rparr>"
proof -
  have out: "OutputDir first_and_second = ''out''" by (simp add: first_and_second_def)
  have url: "URL episode02 = ''https://host/ep02.mp3''" by (simp add: episode02_def)
  have n: "fileName episode02 = ''02 - Night Drive.mp3''"
    by (simp add: fileName_def episode02_def)
  have c: "Join ''out'' ''cover.jpg'' = ''out/cover.jpg''"
    by (simp add: cover_example_Join cover_example_def)
  let ?t = "''out/02 - Night Drive.mp3''"
  let ?u = "''https://host/ep02.mp3''"
  let ?w1 = "log (Downloading ''02 - Night Drive.mp3'') world_flaky"
  let ?w2 = "(?w1\<lparr>trace := trace ?w1 @ [DownloadFile ?u ?t]\<rparr>)\<lparr>files := (files ?w1)(?t \<mapsto> untagged)\<rparr>"
  have f: "files world_flaky ?t = None"
    by (simp add: world_flaky_def cover_example_def)
  have dl: "downloadFile ?u ?t ?w1 = (None, ?w2)"
    using downloadFile_written[of ?w1 ?u "\<lparr>ContentLength = 12, body = untagged, copy_error = None\<rparr>" ?t]
    by (simp add: world_flaky_def flaky_def)
  have tg: "tagEpisode ?t ''out/cover.jpg'' ?w2 =
     (None, ?w2\<lparr>trace := trace ?w2 @ [TagEpisode ?t ''out/cover.jpg''],
              files := (files ?w2)(?t \<mapsto> untagged\<lparr>id3 := HasTag
                 \<lparr>text_frames = [''TALB'' \<mapsto> ''Music For Programming''],
                  pictures = [tagger_picture (raw ?w2 jpeg)]\<rparr>\<rparr>)\<rparr>)"
    by (rule tagEpisode_step_NoTag)
       (simp_all add: world_flaky_def untagged_def cover_example_def tagHeaderSize_def)
  have j: "Join ''out'' ''02 - Night Drive.mp3'' = ?t"
    using Join_ep02 unfolding n .
  have f': "files world_flaky (Join (OutputDir first_and_second) (fileName episode02)) = None"
    unfolding out Join_ep02 by (rule f)
  show ?thesis
    using worker_missing[OF f', unfolded out url n j c, OF dl tg]
    by (simp add: world_flaky_def untagged_def jpeg_def cover_example_def log_def)
qed

theorem episode_failures_stay_local_witness:
  "reachable first_and_second world_flaky (after_run first_and_second world_flaky) \<and>
   pc (after_run first_and_second world_flaky) = Returned \<and>
   separate_targets first_and_second \<and>
   new_events first_and_second episode01 world_flaky =
     [Log (Downloading ''01 - Night Drive.mp3''),
      DownloadFile ''https://host/ep01.mp3'' ''out/01 - Night Drive.mp3'',
      Log (ErrDownloading ''01 - Night Drive.mp3'' (Error ''no route to host''))] \<and>
   new_events first_and_second episode02 world_flaky =
     [Log (Downloading ''02 - Night Drive.mp3''),
      DownloadFile ''https://host/ep02.mp3'' ''out/02 - Night Drive.mp3'',
      TagEpisode ''out/02 - Night Drive.mp3'' ''out/cover.jpg'',
      Log (Processed ''02 - Night Drive.mp3'')] \<and>
   trace (wld (after_run first_and_second world_flaky)) =
     [Log (Downloading ''01 - Night Drive.mp3''),
      DownloadFile ''https://host/ep01.mp3'' ''out/01 - Night Drive.mp3'',
      Log (ErrDownloading ''01 - Night Drive.mp3'' (Error ''no route to host'')),
      Log (Downloading ''02 - Night Drive.mp3''),
      DownloadFile ''https://host/ep02.mp3'' ''out/02 - Night Drive.mp3'',
      TagEpisode ''out/02 - Night Drive.mp3'' ''out/cover.jpg'',
      Log (Processed ''02 - Night Drive.mp3'')] \<and>
   files (wld (after_run first_and_second world_flaky)) ''out/01 - Night Drive.mp3'' = None \<and>
   files (wld (after_run first_and_second world_flaky)) ''out/02 - Night Drive.mp3'' =
     Some \<lparr>id3 = HasTag \<lparr>text_frames = [''TALB'' \<mapsto> ''Music For Programming''],
                           pictures = [tagger_picture ''JFIF'']\<rparr>,
           audio = ''twelve bytes''\<rparr> \<and>
   complete_last (wld (after_run first_and_second world_flaky)) ''out/02 - Night Drive.mp3'' \<and>
   mset (terminal_names (wld (after_run first_and_second world_flaky))) =
     {#''01 - Night Drive.mp3'', ''02 - Night Drive.mp3''#} \<and>
   fst (main [''out''] world_flaky) = 0"
proof -
  let ?d = first_and_second
  let ?w = world_flaky
  let ?s = "after_run ?d ?w"
  let ?t1 = "''out/01 - Night Drive.mp3''"
  let ?t2 = "''out/02 - Night Drive.mp3''"
  let ?w1 = "worker ?d episode01 ?w"
  have r0: "reachable ?d ?w (init ?d ?w)"
    by (simp add: reachable_def)
  note t0 = episode_failures_stay_local[OF r0, of "[''out'']" ?w]
  have r: "reachable ?d ?w ?s"
    using t0 by blast
  note t = episode_failures_stay_local[OF r, of "[''out'']" ?w]
  have p: "pc ?s = Returned"
    by (simp add: after_run_def)
  have sep: "separate_targets ?d" by (rule separate_first_and_second)
  have tp1: "targetPath ?d episode01 = ?t1"
    by (simp add: targetPath_def first_and_second_def Join_ep01)
  have tp2: "targetPath ?d episode02 = ?t2"
    by (simp add: targetPath_def first_and_second_def Join_ep02)
  have cp: "coverPath ?d = ''out/cover.jpg''"
    by (simp add: coverPath_def first_and_second_def cover_example_Join cover_example_def)
  have ne1: "new_events ?d episode01 ?w =
     [Log (Downloading ''01 - Night Drive.mp3''),
      DownloadFile ''https://host/ep01.mp3'' ?t1,
      Log (ErrDownloading ''01 - Night Drive.mp3'' (Error ''no route to host''))]"
    unfolding new_events_def worker_flaky_01 by (simp add: world_flaky_def)
  have ne2: "new_events ?d episode02 ?w =
     [Log (Downloading ''02 - Night Drive.mp3''),
      DownloadFile ''https://host/ep02.mp3'' ?t2,
      TagEpisode ?t2 ''out/cover.jpg'',
      Log (Processed ''02 - Night Drive.mp3'')]"
    unfolding new_events_def worker_flaky_02 by (simp add: world_flaky_def)
  have same: "same_inputs ?d episode02 ?w ?w1"
    unfolding worker_flaky_01 same_inputs_def by simp
  have ne2': "new_events ?d episode02 ?w1 = new_events ?d episode02 ?w"
    using t same by metis
  have wl: "wld ?s = worker ?d episode02 ?w1"
    by (simp add: after_run_def downloadAndTagEpisodes_def first_and_second_def)
  have "trace (wld ?s) = trace ?w1 @ new_events ?d episode02 ?w1"
    unfolding wl by (rule trace_worker)
  then have tr: "trace (wld ?s) =
     [Log (Downloading ''01 - Night Drive.mp3''),
      DownloadFile ''https://host/ep01.mp3'' ?t1,
      Log (ErrDownloading ''01 - Night Drive.mp3'' (Error ''no route to host'')),
      Log (Downloading ''02 - Night Drive.mp3''),
      DownloadFile ''https://host/ep02.mp3'' ?t2,
      TagEpisode ?t2 ''out/cover.jpg'',
      Log (Processed ''02 - Night Drive.mp3'')]"
    unfolding ne2' ne2 by (simp add: worker_flaky_01)
  have iso: "isolated ?d ?w ?s" using t sep by blast
  have fin: "finished ?s = [episode01, episode02]"
    by (simp add: finished_def after_run_def first_and_second_def)
  have c1: "files (wld ?s) (targetPath ?d episode01) = files ?w1 (targetPath ?d episode01)"
    and c2: "files (wld ?s) (targetPath ?d episode02) =
             files (worker ?d episode02 ?w) (targetPath ?d episode02)"
    and rw: "raw (wld ?s) = raw ?w"
    using iso unfolding isolated_def fin by simp_all
  have f1: "files (wld ?s) ?t1 = None"
    using c1 unfolding tp1 worker_flaky_01 by (simp add: world_flaky_def cover_example_def)
  have f2: "files (wld ?s) ?t2 =
     Some \<lparr>id3 = HasTag \<lparr>text_frames = [''TALB'' \<mapsto> ''Music For Programming''],
                           pictures = [tagger_picture ''JFIF'']\<rparr>,
           audio = ''twelve bytes''\<rparr>"
    using c2 unfolding tp2 worker_flaky_02 by (simp add: world_flaky_def cover_example_def)
  have "complete_last (worker ?d episode02 ?w) ?t2"
    unfolding worker_flaky_02
    by (simp add: complete_last_def Stat_def metadataComplete_def Open_def GetFrames_def
        Album_def world_flaky_def cover_example_def UniqueIdentifier_tagger_picture)
  moreover have "raw (wld ?s) = raw (worker ?d episode02 ?w)"
    unfolding rw worker_flaky_02 by simp
  ultimately have cl: "complete_last (wld ?s) ?t2"
    using complete_last_same[of "wld ?s" ?t2 "worker ?d episode02 ?w"] c2 unfolding tp2 by simp
  have names: "mset (terminal_names (wld ?s)) =
     {#''01 - Night Drive.mp3'', ''02 - Night Drive.mp3''#}"
    using t p by (simp add: first_and_second_def fileName_def episode01_def episode02_def
        terminal_names_def world_flaky_def)
  have ex: "fst (main [''out''] ?w) = 0"
  proof -
    let ?d0 = "newDownloader ''out'' ''https://musicforprogramming.net/rss.php''
                ''https://musicforprogramming.net/img/folder.jpg'' :: Episode Downloader"
    have a: "prepareOutput ?d0 ?w = None"
      by (simp add: prepareOutput_def world_flaky_def)
    have b: "fetchCover ?d0 ?w = (None, ?w)"
      by (simp add: fetchCover_def newDownloader_def cover_example_Join Stat_def)
         (simp add: world_flaky_def)
    have c: "fst (loadEpisodes (feeds ?w (FeedURL ?d0)) ?d0) = None"
      by (simp add: world_flaky_def feed_newest_first_def loadEpisodes_Inr)
    show ?thesis using t a b c by (simp add: Let_def)
  qed
  show ?thesis using r p sep ne1 ne2 tr f1 f2 cl names ex by simp
qed

end
